theory Spec2Isabelle
  imports Main "HOL-Library.Multiset"
begin

section \<open>Python built-ins used by denue\_cuantificar.py\<close>

text \<open>
  Python strings are modelled as lists of ASCII characters. A character outside ASCII
  is treated as neither a digit nor white space; Python's \<^verbatim>\<open>isdigit\<close>,
  \<^verbatim>\<open>strip\<close> and \<^verbatim>\<open>int\<close> agree with the definitions below on
  ASCII strings. The two notions of white space differ: \<^verbatim>\<open>str.strip\<close> removes
  the characters 9 to 13, 28 to 31 and 32, while \<^verbatim>\<open>int\<close> accepts only 9 to 13 and
  32 around the number. \<^verbatim>\<open>int\<close> raises ValueError for a string of more than
  4300 digits (the default limit of Python 3.11 and of the security releases of 3.7 to
  3.10; leading zeros count, underscores do not).
\<close>

datatype py_error = ValueError | TypeError | OverflowError | KeyError | OSError

definition is_digit :: "char \<Rightarrow> bool" where
  "is_digit c = (c \<in> set ''0123456789'')"

definition is_space :: "char \<Rightarrow> bool" where
  "is_space c = (of_char c \<in> {9, 10, 11, 12, 13, 28, 29, 30, 31, 32 :: nat})"

definition is_int_space :: "char \<Rightarrow> bool" where
  "is_int_space c = (of_char c \<in> {9, 10, 11, 12, 13, 32 :: nat})"

definition isdigit :: "string \<Rightarrow> bool" where
  "isdigit s = (s \<noteq> [] \<and> list_all is_digit s)"

definition strip :: "string \<Rightarrow> string" where
  "strip s = rev (dropWhile is_space (rev (dropWhile is_space s)))"

fun split_on :: "char \<Rightarrow> string \<Rightarrow> string list" where
  "split_on c [] = [[]]"
| "split_on c (x # xs) =
     (if x = c then [] # split_on c xs
      else (case split_on c xs of
              [] \<Rightarrow> [[x]]
            | w # ws \<Rightarrow> (x # w) # ws))"

definition zfill :: "nat \<Rightarrow> string \<Rightarrow> string" where
  "zfill n s =
     (if n \<le> length s then s
      else (case s of
              [] \<Rightarrow> replicate n CHR ''0''
            | c # cs \<Rightarrow>
                if c = CHR ''+'' \<or> c = CHR ''-''
                then c # replicate (n - length s) CHR ''0'' @ cs
                else replicate (n - length s) CHR ''0'' @ s))"

definition digit_val :: "char \<Rightarrow> int" where
  "digit_val c = int (of_char c) - 48"

text \<open>The digit part of an integer literal: digits, with single underscores between them.\<close>

fun digits_ok :: "string \<Rightarrow> bool" where
  "digits_ok [] = False"
| "digits_ok [c] = is_digit c"
| "digits_ok (c # d # r) =
     (if is_digit c then (if d = CHR ''_'' then digits_ok r else digits_ok (d # r))
      else False)"

definition digits_value :: "string \<Rightarrow> int" where
  "digits_value ds = foldl (\<lambda>acc c. 10 * acc + digit_val c) 0 (filter (\<lambda>c. c \<noteq> CHR ''_'') ds)"

definition MAX_STR_DIGITS :: nat where
  "MAX_STR_DIGITS = 4300"

definition parse_digits :: "string \<Rightarrow> py_error + int" where
  "parse_digits ds =
     (if digits_ok ds \<and> length (filter (\<lambda>c. c \<noteq> CHR ''_'') ds) \<le> MAX_STR_DIGITS
      then Inr (digits_value ds) else Inl ValueError)"

text \<open>\<^verbatim>\<open>int(s)\<close> for a string: white space around, an optional sign, the digits.\<close>

definition strip_int :: "string \<Rightarrow> string" where
  "strip_int s = rev (dropWhile is_int_space (rev (dropWhile is_int_space s)))"

definition int_of_str :: "string \<Rightarrow> py_error + int" where
  "int_of_str s =
     (case strip_int s of
        [] \<Rightarrow> Inl ValueError
      | c # cs \<Rightarrow>
          if c = CHR ''-'' then map_sum id uminus (parse_digits cs)
          else if c = CHR ''+'' then parse_digits cs
          else parse_digits (c # cs))"

text \<open>
  What it means for a string to denote an integer, stated without the parser: white space
  of \<^verbatim>\<open>int\<close> on both sides, an optional sign, groups of digits joined by single
  underscores with at most 4300 digits in all, and the value of the digits by position.
\<close>

inductive digit_groups :: "string \<Rightarrow> bool" where
  one: "is_digit c \<Longrightarrow> digit_groups [c]"
| more: "is_digit c \<Longrightarrow> digit_groups r \<Longrightarrow> digit_groups (c # r)"
| under: "is_digit c \<Longrightarrow> digit_groups r \<Longrightarrow> digit_groups (c # CHR ''_'' # r)"

definition decimal :: "string \<Rightarrow> int" where
  "decimal ds = (\<Sum>i < length ds. digit_val (ds ! i) * 10 ^ (length ds - Suc i))"

definition denotes :: "string \<Rightarrow> int \<Rightarrow> bool" where
  "denotes s n =
     (\<exists>l sg body r.
        s = l @ sg @ body @ r
        \<and> list_all is_int_space l \<and> list_all is_int_space r
        \<and> digit_groups body
        \<and> length (filter is_digit body) \<le> 4300
        \<and> (((sg = [] \<or> sg = ''+'') \<and> n = decimal (filter is_digit body))
           \<or> (sg = ''-'' \<and> n = - decimal (filter is_digit body))))"

text \<open>\<^verbatim>\<open>list(dict.fromkeys(out))\<close>: the keys in the order of their first insertion.\<close>

definition ins_key :: "'a list \<Rightarrow> 'a \<Rightarrow> 'a list" where
  "ins_key acc x = (if x \<in> set acc then acc else acc @ [x])"

definition fromkeys :: "'a list \<Rightarrow> 'a list" where
  "fromkeys xs = foldl ins_key [] xs"

section \<open>Validation and utilities\<close>

definition validate_actividad :: "string \<Rightarrow> bool" where
  "validate_actividad actividad =
     (actividad = ''0'' \<or> (isdigit actividad \<and> length actividad = 2))"

definition validate_area :: "string \<Rightarrow> bool" where
  "validate_area area = (area = ''0'' \<or> (isdigit area \<and> length area = 5))"

text \<open>
  The stratum argument has the type \<^verbatim>\<open>Union[int, str]\<close>: the callers pass the
  pieces of the command line (strings) and the parsed strata (integers).
\<close>

datatype estrato = EInt int | EStr string

definition int_of_estrato :: "estrato \<Rightarrow> py_error + int" where
  "int_of_estrato v = (case v of EInt n \<Rightarrow> Inr n | EStr s \<Rightarrow> int_of_str s)"

definition validate_estrato :: "estrato \<Rightarrow> bool \<Rightarrow> bool" where
  "validate_estrato v allow_zero =
     (case int_of_estrato v of
        Inl _ \<Rightarrow> False
      | Inr e \<Rightarrow> if allow_zero \<and> e = 0 then True else 1 \<le> e \<and> e \<le> 7)"

text \<open>The loop of \<^verbatim>\<open>pad_areas\<close>: one area at a time, appended to \<^verbatim>\<open>out\<close>.\<close>

definition pad_step :: "string list \<Rightarrow> string \<Rightarrow> string list" where
  "pad_step out a0 =
     (let a = strip a0 in
      if a = ''0'' then out @ [''0'']
      else if isdigit a \<and> length a \<le> 5 then out @ [zfill 5 a]
      else out)"

definition pad_areas :: "string list \<Rightarrow> string list" where
  "pad_areas areas = fromkeys (foldl pad_step [] areas)"

section \<open>JSON values\<close>

text \<open>
  What \<^verbatim>\<open>r.json()\<close> returns. Floating-point numbers are kept abstract: the type
  \<^typ>\<open>'f\<close> stands for Python's floats, and a record of functions gives what
  \<^verbatim>\<open>int\<close>, \<^verbatim>\<open>bool\<close> and \<^verbatim>\<open>str\<close> do on them. A dictionary is the
  list of its items; a key is looked up from the front.
\<close>

datatype 'f json =
    JNull
  | JBool bool
  | JInt int
  | JFloat 'f
  | JStr string
  | JList "'f json list"
  | JDict "(string \<times> 'f json) list"

record 'f float_ops =
  float_int :: "'f \<Rightarrow> py_error + int"
  float_bool :: "'f \<Rightarrow> bool"
  float_str :: "'f \<Rightarrow> string"

text \<open>\<^verbatim>\<open>int(v)\<close>: TypeError for None, lists and dictionaries, ValueError for a bad string.\<close>

definition py_int :: "'f float_ops \<Rightarrow> 'f json \<Rightarrow> py_error + int" where
  "py_int fl v =
     (case v of
        JNull \<Rightarrow> Inl TypeError
      | JBool b \<Rightarrow> Inr (if b then 1 else 0)
      | JInt n \<Rightarrow> Inr n
      | JFloat x \<Rightarrow> float_int fl x
      | JStr s \<Rightarrow> int_of_str s
      | JList xs \<Rightarrow> Inl TypeError
      | JDict d \<Rightarrow> Inl TypeError)"

text \<open>The truth value of a Python object, as \<^verbatim>\<open>or\<close> and \<^verbatim>\<open>if\<close> test it.\<close>

definition truthy :: "'f float_ops \<Rightarrow> 'f json \<Rightarrow> bool" where
  "truthy fl v =
     (case v of
        JNull \<Rightarrow> False
      | JBool b \<Rightarrow> b
      | JInt n \<Rightarrow> n \<noteq> 0
      | JFloat x \<Rightarrow> float_bool fl x
      | JStr s \<Rightarrow> s \<noteq> []
      | JList xs \<Rightarrow> xs \<noteq> []
      | JDict d \<Rightarrow> d \<noteq> [])"

text \<open>\<^verbatim>\<open>d.get(k)\<close>: None when the key is absent.\<close>

definition dict_get :: "(string \<times> 'f json) list \<Rightarrow> string \<Rightarrow> 'f json" where
  "dict_get d k = (case map_of d k of None \<Rightarrow> JNull | Some v \<Rightarrow> v)"

fun str_nat :: "nat \<Rightarrow> string" where
  "str_nat n =
     (if n < 10 then [char_of (48 + n)]
      else str_nat (n div 10) @ [char_of (48 + n mod 10)])"

declare str_nat.simps [simp del]

definition str_int :: "int \<Rightarrow> string" where
  "str_int i = (if i < 0 then CHR ''-'' # str_nat (nat (- i)) else str_nat (nat i))"

section \<open>Token rotation\<close>

definition BASE_URL :: string where
  "BASE_URL = ''https://www.inegi.org.mx/app/api/denue/v1/consulta/Cuantificar''"

definition MAX_RETRIES_PER_TOKEN :: nat where
  "MAX_RETRIES_PER_TOKEN = 3"

record token_manager =
  queue :: "string list"
  errors :: "string \<rightharpoonup> nat"

definition TokenManager :: "string list \<Rightarrow> token_manager" where
  "TokenManager tokens =
     \<lparr>queue = tokens, errors = map_of (map (\<lambda>t. (t, 0)) tokens)\<rparr>"

text \<open>
  \<^verbatim>\<open>queue.get(block=True)\<close> waits while the queue is empty: \<^const>\<open>None\<close> stands
  for a call that does not return in this state.
\<close>

definition get_token :: "token_manager \<Rightarrow> (string \<times> token_manager) option" where
  "get_token tm =
     (case queue tm of
        [] \<Rightarrow> None
      | t # q \<Rightarrow> Some (t, tm\<lparr>queue := q\<rparr>))"

text \<open>
  \<^verbatim>\<open>self.errors[token] += 1\<close> raises KeyError for a token that is not a key of
  the dictionary; a disabled token is not put back.
\<close>

definition release :: "token_manager \<Rightarrow> string \<Rightarrow> bool \<Rightarrow> py_error + token_manager" where
  "release tm token success =
     (if \<not> success then
        (case errors tm token of
           None \<Rightarrow> Inl KeyError
         | Some n \<Rightarrow>
             (let tm1 = tm\<lparr>errors := (errors tm)(token \<mapsto> n + 1)\<rparr> in
              if MAX_RETRIES_PER_TOKEN \<le> n + 1 then Inr tm1
              else Inr (tm1\<lparr>queue := queue tm1 @ [token]\<rparr>)))
      else Inr (tm\<lparr>queue := queue tm @ [token]\<rparr>))"

text \<open>
  A sequence of calls on one token manager, in the order in which they take effect. An
  event \<^verbatim>\<open>Got t c\<close> is a \<^verbatim>\<open>get_token\<close> that returned \<^verbatim>\<open>t\<close> when its failure
  count was \<^verbatim>\<open>c\<close>; \<^verbatim>\<open>Put t ok c\<close> is a \<^verbatim>\<open>release\<close> after which the count of
  \<^verbatim>\<open>t\<close> is \<^verbatim>\<open>c\<close>. A \<^verbatim>\<open>get_token\<close> on an empty queue waits and a
  \<^verbatim>\<open>release\<close> that raises fails: the sequence ends there.
\<close>

datatype tm_op = Get | Release string bool

datatype tm_event =
    Got string "nat option"
  | Put string bool "nat option"
  | Waits
  | Fails py_error

fun run_ops :: "token_manager \<Rightarrow> tm_op list \<Rightarrow> tm_event list" where
  "run_ops tm [] = []"
| "run_ops tm (Get # ops) =
     (case get_token tm of
        None \<Rightarrow> [Waits]
      | Some (t, tm') \<Rightarrow> Got t (errors tm t) # run_ops tm' ops)"
| "run_ops tm (Release t ok # ops) =
     (case release tm t ok of
        Inl e \<Rightarrow> [Fails e]
      | Inr tm' \<Rightarrow> Put t ok (errors tm' t) # run_ops tm' ops)"

text \<open>
  The discipline of \<^verbatim>\<open>fetch\<close>: every release gives back a token that an earlier
  \<^verbatim>\<open>get_token\<close> returned and that was not released since.
\<close>

fun lawful :: "string list \<Rightarrow> tm_event list \<Rightarrow> bool" where
  "lawful held [] = True"
| "lawful held (Got t c # evs) = lawful (t # held) evs"
| "lawful held (Put t ok c # evs) = (t \<in> set held \<and> lawful (remove1 t held) evs)"
| "lawful held (Waits # evs) = lawful held evs"
| "lawful held (Fails e # evs) = lawful held evs"

text \<open>
  The tokens in the queue and the tokens held are pairwise distinct, were supplied at
  construction, and have a failure count below the threshold.
\<close>

definition pool_inv :: "string list \<Rightarrow> token_manager \<Rightarrow> string list \<Rightarrow> bool" where
  "pool_inv tokens tm held =
     (distinct (queue tm @ held)
      \<and> (\<forall>t \<in> set (queue tm @ held).
            t \<in> set tokens \<and> (\<exists>k. errors tm t = Some k \<and> k < MAX_RETRIES_PER_TOKEN)))"

section \<open>The client\<close>

text \<open>
  What one \<^verbatim>\<open>session.get(url)\<close> followed by \<^verbatim>\<open>raise_for_status()\<close> and
  \<^verbatim>\<open>json()\<close> comes to: a parsed body, an HTTPError with the status code of the
  response, or another exception (from the network, or from parsing the body). The
  session is a function from the URL to this result; time-outs are part of it.
\<close>

datatype 'f http_result =
    Body "'f json"
  | HTTPError nat
  | NetworkError
  | ParseError

text \<open>A call returns a value, waits for ever, or raises.\<close>

datatype 'a result = Returned 'a | Blocked | Raised py_error

definition str_estrato :: "estrato \<Rightarrow> string" where
  "str_estrato v = (case v of EInt n \<Rightarrow> str_int n | EStr s \<Rightarrow> s)"

definition request_url :: "string \<Rightarrow> string \<Rightarrow> estrato \<Rightarrow> string \<Rightarrow> string" where
  "request_url actividad area estrato token =
     BASE_URL @ ''/'' @ actividad @ ''/'' @ area @ ''/'' @ str_estrato estrato @ ''/'' @ token"

text \<open>
  The \<^verbatim>\<open>try\<close> statement of \<^verbatim>\<open>fetch\<close>, once the token is borrowed: the result
  of the call and the token manager after the release.
\<close>

definition fetch_try ::
  "'f http_result \<Rightarrow> token_manager \<Rightarrow> string \<Rightarrow> 'f json list result \<times> token_manager" where
  "fetch_try r tm token =
     (case r of
        Body data \<Rightarrow>
          (case release tm token True of
             Inl e \<Rightarrow> (Raised e, tm)
           | Inr tm' \<Rightarrow> (Returned (case data of JList xs \<Rightarrow> xs | _ \<Rightarrow> []), tm'))
      | HTTPError code \<Rightarrow>
          (case release tm token (code \<notin> {401, 403}) of
             Inl e \<Rightarrow> (Raised e, tm)
           | Inr tm' \<Rightarrow> (Returned [], tm'))
      | _ \<Rightarrow>
          (case release tm token True of
             Inl e \<Rightarrow> (Raised e, tm)
           | Inr tm' \<Rightarrow> (Returned [], tm')))"

text \<open>
  \<^verbatim>\<open>fetch\<close>: the result, the token manager afterwards and the URLs requested.
\<close>

definition fetch ::
  "(string \<Rightarrow> 'f http_result) \<Rightarrow> token_manager \<Rightarrow> string \<Rightarrow> string \<Rightarrow> estrato \<Rightarrow> bool
     \<Rightarrow> 'f json list result \<times> token_manager \<times> string list" where
  "fetch session tm actividad area estrato allow_zero_estrato =
     (if \<not> (validate_actividad actividad \<and> validate_area area
              \<and> validate_estrato estrato allow_zero_estrato)
      then (Returned [], tm, [])
      else (case get_token tm of
              None \<Rightarrow> (Blocked, tm, [])
            | Some (token, tm1) \<Rightarrow>
                (let url = request_url actividad area estrato token;
                     (res, tm2) = fetch_try (session url) tm1 token
                 in (res, tm2, [url]))))"

text \<open>The body of the \<^verbatim>\<open>try\<close> in the loop of \<^verbatim>\<open>quantify\<close>: the new value of \<^verbatim>\<open>total\<close>.\<close>

definition quantify_item :: "'f float_ops \<Rightarrow> int \<Rightarrow> 'f json \<Rightarrow> py_error + int" where
  "quantify_item fl tot item =
     (case item of
        JList xs \<Rightarrow>
          if 3 \<le> length xs then map_sum id (\<lambda>n. tot + n) (py_int fl (xs ! 2))
          else Inr tot
      | JDict d \<Rightarrow>
          (let a = dict_get d ''Total'';
               val = (if truthy fl a then a else dict_get d ''total'')
           in (case val of
                 JNull \<Rightarrow> Inr tot
               | _ \<Rightarrow> map_sum id (\<lambda>n. tot + n) (py_int fl val)))
      | _ \<Rightarrow> Inr tot)"

text \<open>The loop: an exception in the body leaves the total as it was.\<close>

fun quantify_loop :: "'f float_ops \<Rightarrow> int \<Rightarrow> 'f json list \<Rightarrow> int" where
  "quantify_loop fl tot [] = tot"
| "quantify_loop fl tot (item # rest) =
     quantify_loop fl
       (case quantify_item fl tot item of Inl e \<Rightarrow> tot | Inr t \<Rightarrow> t) rest"

definition quantify ::
  "(string \<Rightarrow> 'f http_result) \<Rightarrow> 'f float_ops \<Rightarrow> token_manager \<Rightarrow> string \<Rightarrow> string \<Rightarrow> estrato
     \<Rightarrow> int result \<times> token_manager \<times> string list" where
  "quantify session fl tm actividad area estrato =
     (case fetch session tm actividad area estrato False of
        (Returned data, tm', urls) \<Rightarrow> (Returned (quantify_loop fl 0 data), tm', urls)
      | (Blocked, tm', urls) \<Rightarrow> (Blocked, tm', urls)
      | (Raised e, tm', urls) \<Rightarrow> (Raised e, tm', urls))"

text \<open>
  The count of one record, in the words of the specification as amended: the element at
  position 2 of a list-shaped record; for a dictionary-shaped record the field Total, or
  the field total when Total is absent or falsy (None, False, 0, 0.0, the empty string,
  list or dictionary); no other spelling is read. The value counts as the integer it is
  coerced to, and as 0 when it cannot be coerced.
\<close>

definition coerced :: "'f float_ops \<Rightarrow> 'f json \<Rightarrow> int" where
  "coerced fl v = (case py_int fl v of Inl e \<Rightarrow> 0 | Inr n \<Rightarrow> n)"

definition falsy :: "'f float_ops \<Rightarrow> 'f json \<Rightarrow> bool" where
  "falsy fl v =
     (v = JNull \<or> v = JBool False \<or> v = JInt 0 \<or> v = JStr [] \<or> v = JList []
      \<or> v = JDict [] \<or> (\<exists>x. v = JFloat x \<and> \<not> float_bool fl x))"

definition total_field :: "'f float_ops \<Rightarrow> (string \<times> 'f json) list \<Rightarrow> 'f json option" where
  "total_field fl d =
     (case map_of d ''Total'' of
        None \<Rightarrow> map_of d ''total''
      | Some v \<Rightarrow> if falsy fl v then map_of d ''total'' else Some v)"

definition record_total :: "'f float_ops \<Rightarrow> 'f json \<Rightarrow> int" where
  "record_total fl item =
     (case item of
        JList xs \<Rightarrow> if 3 \<le> length xs then coerced fl (xs ! 2) else 0
      | JDict d \<Rightarrow> (case total_field fl d of None \<Rightarrow> 0 | Some v \<Rightarrow> coerced fl v)
      | _ \<Rightarrow> 0)"

section \<open>Discovery of the activities\<close>

text \<open>
  \<^verbatim>\<open>str(v)\<close> and \<^verbatim>\<open>repr(v)\<close>. The representation of a string takes single quotes,
  unless the string has a single quote and no double quote; it escapes the backslash, the
  quote in use and the control characters.
\<close>

definition hex_digit :: "nat \<Rightarrow> char" where
  "hex_digit n = ''0123456789abcdef'' ! (n mod 16)"

definition repr_char :: "char \<Rightarrow> char \<Rightarrow> string" where
  "repr_char q c =
     (if c = q \<or> c = CHR 0x5C then [CHR 0x5C, c]
      else if c = CHR 0x09 then [CHR 0x5C, CHR ''t'']
      else if c = CHR 0x0A then [CHR 0x5C, CHR ''n'']
      else if c = CHR 0x0D then [CHR 0x5C, CHR ''r'']
      else if (of_char c :: nat) < 32 \<or> (of_char c :: nat) = 127
        then [CHR 0x5C, CHR ''x'', hex_digit (of_char c div 16), hex_digit (of_char c)]
      else [c])"

definition repr_str :: "string \<Rightarrow> string" where
  "repr_str s =
     (let q = (if CHR 0x27 \<in> set s \<and> CHR 0x22 \<notin> set s then CHR 0x22 else CHR 0x27)
      in q # concat (map (repr_char q) s) @ [q])"

fun join :: "string \<Rightarrow> string list \<Rightarrow> string" where
  "join sep [] = []"
| "join sep [x] = x"
| "join sep (x # y # ys) = x @ sep @ join sep (y # ys)"

primrec py_repr :: "'f float_ops \<Rightarrow> 'f json \<Rightarrow> string" where
  "py_repr fl JNull = ''None''"
| "py_repr fl (JBool b) = (if b then ''True'' else ''False'')"
| "py_repr fl (JInt n) = str_int n"
| "py_repr fl (JFloat x) = float_str fl x"
| "py_repr fl (JStr s) = repr_str s"
| "py_repr fl (JList xs) = ''['' @ join '', '' (map (py_repr fl) xs) @ '']''"
| "py_repr fl (JDict d) =
     ''{'' @ join '', '' (map (\<lambda>kv. repr_str (fst kv) @ '': '' @ snd kv)
                           (map (map_prod id (py_repr fl)) d)) @ ''}''"

definition py_str :: "'f float_ops \<Rightarrow> 'f json \<Rightarrow> string" where
  "py_str fl v = (case v of JStr s \<Rightarrow> s | _ \<Rightarrow> py_repr fl v)"

definition id_keys :: "string list" where
  "id_keys = [''AE'', ''IdActividad'', ''idActividad'', ''IDE_ACTIVIDAD_ECONOMICA'',
              ''actividad'', ''Id'', ''id'']"

definition extract_id :: "'f float_ops \<Rightarrow> 'f json \<Rightarrow> string option" where
  "extract_id fl record =
     (case record of
        JList xs \<Rightarrow> (case xs of [] \<Rightarrow> None | x # rest \<Rightarrow> Some (py_str fl x))
      | JDict d \<Rightarrow>
          (case find (\<lambda>k. map_of d k \<noteq> None) id_keys of
             None \<Rightarrow> None
           | Some k \<Rightarrow> Some (py_str fl (dict_get d k)))
      | _ \<Rightarrow> None)"

text \<open>
  \<^verbatim>\<open>sorted(s, key=int)\<close>: the keys of all elements are computed first, and a key that
  cannot be computed raises; the sort is stable.
\<close>

fun int_keys :: "string list \<Rightarrow> py_error + (int \<times> string) list" where
  "int_keys [] = Inr []"
| "int_keys (x # xs) =
     (case int_of_str x of
        Inl e \<Rightarrow> Inl e
      | Inr k \<Rightarrow> (case int_keys xs of Inl e \<Rightarrow> Inl e | Inr ks \<Rightarrow> Inr ((k, x) # ks)))"

definition sorted_by_int :: "string list \<Rightarrow> py_error + string list" where
  "sorted_by_int xs =
     (case int_keys xs of Inl e \<Rightarrow> Inl e | Inr ks \<Rightarrow> Inr (map snd (sort_key fst ks)))"

text \<open>
  \<^verbatim>\<open>get_activities\<close>. Python does not fix the order in which a set of strings is
  iterated: \<^verbatim>\<open>iter_set\<close> gives, for the elements put into the set, the list that the
  iteration yields.
\<close>

definition get_activities ::
  "(string \<Rightarrow> 'f http_result) \<Rightarrow> 'f float_ops \<Rightarrow> (string list \<Rightarrow> string list) \<Rightarrow> token_manager
     \<Rightarrow> string \<Rightarrow> string list result \<times> token_manager \<times> string list" where
  "get_activities session fl iter_set tm ramos_arg0 =
     (let ramos_arg = strip ramos_arg0 in
      if ramos_arg = ''0'' then
        (case fetch session tm ''0'' ''0'' (EInt 0) True of
           (Returned raw, tm', urls) \<Rightarrow>
             (let ids = List.map_filter
                          (\<lambda>r. case extract_id fl r of
                                  None \<Rightarrow> None
                                | Some i \<Rightarrow> if i \<noteq> [] then Some i else None) raw;
                  kept = filter (\<lambda>i. i \<noteq> [] \<and> length i = 2) ids
              in (case sorted_by_int (iter_set kept) of
                    Inl e \<Rightarrow> (Raised e, tm', urls)
                  | Inr sectors \<Rightarrow> (Returned sectors, tm', urls)))
         | (Blocked, tm', urls) \<Rightarrow> (Blocked, tm', urls)
         | (Raised e, tm', urls) \<Rightarrow> (Raised e, tm', urls))
      else
        (Returned (filter validate_actividad (map strip (split_on CHR '','' ramos_arg))),
         tm, []))"

section \<open>Generating the CSV\<close>

text \<open>
  A task is the triple that \<^verbatim>\<open>generate_csv\<close> stores for a future: the activity, the
  stratum and the area. The three nested loops submit the tasks in this order.
\<close>

type_synonym task = "string \<times> int \<times> string"

definition tasks_of :: "string list \<Rightarrow> int list \<Rightarrow> string list \<Rightarrow> task list" where
  "tasks_of ramos estratos areas =
     concat (map (\<lambda>ramo.
       concat (map (\<lambda>area. map (\<lambda>estrato. (ramo, estrato, area)) estratos) areas)) ramos)"

definition valid_task :: "task \<Rightarrow> bool" where
  "valid_task t =
     (case t of (ramo, estrato, area) \<Rightarrow>
        validate_actividad ramo \<and> validate_area area \<and> validate_estrato (EInt estrato) False)"

text \<open>
  The state of a run of \<^verbatim>\<open>generate_csv\<close>: the tasks that the main thread has still to
  submit, the work queue of the executor, the tasks in the worker threads (with the token a
  worker holds, once it has one), the futures that are done and that \<^verbatim>\<open>as_completed\<close>
  has not yielded yet, the data rows written after the header row, the token manager of
  the client, and the exception that ended the loop of the main thread, if any. Opening
  the output file is taken to succeed.
\<close>

record pool_state =
  to_submit :: "task list"
  pending :: "task list"
  running :: "(task \<times> string option) list"
  finished :: "(task \<times> int result) list"
  rows :: "(string \<times> int \<times> int \<times> string) list"
  token_mgr :: token_manager
  raised :: "py_error option"

definition generate_csv_init ::
  "token_manager \<Rightarrow> string list \<Rightarrow> int list \<Rightarrow> string list \<Rightarrow> pool_state" where
  "generate_csv_init tm ramos estratos areas =
     \<lparr>to_submit = tasks_of ramos estratos areas, pending = [], running = [], finished = [],
      rows = [], token_mgr = tm, raised = None\<rparr>"

text \<open>
  \<^verbatim>\<open>ThreadPoolExecutor(max_workers=max_workers)\<close> raises ValueError unless the number
  of workers is positive; this comes first in the \<^verbatim>\<open>with\<close> statement, before the file
  is opened and before anything is written.
\<close>

definition generate_csv_start ::
  "token_manager \<Rightarrow> string list \<Rightarrow> int list \<Rightarrow> string list \<Rightarrow> int \<Rightarrow> py_error + pool_state" where
  "generate_csv_start tm ramos estratos areas max_workers =
     (if max_workers \<le> 0 then Inl ValueError
      else Inr (generate_csv_init tm ramos estratos areas))"

definition drop_nth :: "nat \<Rightarrow> 'a list \<Rightarrow> 'a list" where
  "drop_nth i xs = take i xs @ drop (Suc i) xs"

text \<open>
  One step of a run. The main thread submits the next task, and once all are submitted
  writes the row of a future that is done (\<^verbatim>\<open>future.result()\<close> raises the exception of
  a future that failed). A free worker takes the first task of the work queue. A worker
  runs \<^verbatim>\<open>quantify\<close>: an invalid task gives the sum of no record; a valid one borrows a
  token when the queue has one, and then, whatever the outcome of its request, runs the
  \<^verbatim>\<open>try\<close> statement of \<^verbatim>\<open>fetch\<close> and sums the records.
\<close>

inductive pool_step :: "'f float_ops \<Rightarrow> int \<Rightarrow> pool_state \<Rightarrow> pool_state \<Rightarrow> bool"
  for fl :: "'f float_ops" and max_workers :: int where
    submit:
      "to_submit s = t # ts \<Longrightarrow>
       pool_step fl max_workers s (s\<lparr>to_submit := ts, pending := pending s @ [t]\<rparr>)"
  | start:
      "pending s = t # ps \<Longrightarrow> int (length (running s)) < max_workers \<Longrightarrow>
       pool_step fl max_workers s (s\<lparr>pending := ps, running := running s @ [(t, None)]\<rparr>)"
  | reject:
      "i < length (running s) \<Longrightarrow> running s ! i = (t, None) \<Longrightarrow> \<not> valid_task t \<Longrightarrow>
       pool_step fl max_workers s
         (s\<lparr>running := drop_nth i (running s),
            finished := finished s @ [(t, Returned (quantify_loop fl 0 []))]\<rparr>)"
  | borrow:
      "i < length (running s) \<Longrightarrow> running s ! i = (t, None) \<Longrightarrow> valid_task t \<Longrightarrow>
       get_token (token_mgr s) = Some (tok, tm') \<Longrightarrow>
       pool_step fl max_workers s
         (s\<lparr>running := (running s)[i := (t, Some tok)], token_mgr := tm'\<rparr>)"
  | respond:
      "i < length (running s) \<Longrightarrow> running s ! i = (t, Some tok) \<Longrightarrow>
       fetch_try r (token_mgr s) tok = (res, tm') \<Longrightarrow>
       pool_step fl max_workers s
         (s\<lparr>running := drop_nth i (running s),
            finished := finished s @ [(t, map_result (quantify_loop fl 0) res)],
            token_mgr := tm'\<rparr>)"
  | write_row:
      "to_submit s = [] \<Longrightarrow> raised s = None \<Longrightarrow> i < length (finished s) \<Longrightarrow>
       finished s ! i = ((ramo, estrato, area), Returned tot) \<Longrightarrow>
       pool_step fl max_workers s
         (s\<lparr>finished := drop_nth i (finished s),
            rows := rows s @ [(ramo, estrato, tot, area)]\<rparr>)"
  | result_raises:
      "to_submit s = [] \<Longrightarrow> raised s = None \<Longrightarrow> i < length (finished s) \<Longrightarrow>
       finished s ! i = (t, Raised e) \<Longrightarrow>
       pool_step fl max_workers s (s\<lparr>raised := Some e\<rparr>)"

code_pred pool_step .

text \<open>\<^verbatim>\<open>generate_csv\<close> returns when every future has been yielded and written.\<close>

definition completed :: "pool_state \<Rightarrow> bool" where
  "completed s =
     (to_submit s = [] \<and> pending s = [] \<and> running s = [] \<and> finished s = []
      \<and> raised s = None)"

text \<open>No step is possible: every thread waits.\<close>

definition stuck :: "'f float_ops \<Rightarrow> int \<Rightarrow> pool_state \<Rightarrow> bool" where
  "stuck fl max_workers s = (\<forall>s'. \<not> pool_step fl max_workers s s')"

definition row_task :: "string \<times> int \<times> int \<times> string \<Rightarrow> task" where
  "row_task row = (case row of (ramo, estrato, tot, area) \<Rightarrow> (ramo, estrato, area))"

text \<open>The tasks of a state, wherever they are.\<close>

definition accounted :: "pool_state \<Rightarrow> task multiset" where
  "accounted s =
     mset (to_submit s) + mset (pending s) + mset (map fst (running s))
     + mset (map fst (finished s)) + mset (map row_task (rows s))"

text \<open>
  A credential is at hand: the queue holds one, or a worker has borrowed one and will
  give it back or retire it when its request ends (the requests have a time-out).
\<close>

definition has_token :: "pool_state \<Rightarrow> bool" where
  "has_token s =
     (queue (token_mgr s) \<noteq> [] \<or> (\<exists>w \<in> set (running s). snd w \<noteq> None))"

text \<open>
  A bound on the steps that a state has before it: a task to submit has 5 (submit, start,
  borrow, respond, write), a task in the work queue 4, a worker without a token 3, a
  worker with one 2, a future that is done 1, and the exception of
  \<^verbatim>\<open>future.result()\<close> 1.
\<close>

definition worker_cost :: "string option \<Rightarrow> nat" where
  "worker_cost h = (case h of None \<Rightarrow> 3 | Some tok \<Rightarrow> 2)"

definition work_left :: "pool_state \<Rightarrow> nat" where
  "work_left s =
     5 * length (to_submit s) + 4 * length (pending s)
     + sum_list (map (\<lambda>w. worker_cost (snd w)) (running s))
     + length (finished s) + (if raised s = None then 1 else 0)"

text \<open>
  What holds in every state of a run that starts from \<^verbatim>\<open>TokenManager(tokens)\<close>:
  every token of the queue and of the workers is a key of the error table, so that
  \<^verbatim>\<open>release\<close> does not raise, no future holds an exception, and the loop of the main
  thread has raised nothing.
\<close>

definition pool_ok :: "pool_state \<Rightarrow> bool" where
  "pool_ok s =
     (raised s = None
      \<and> (\<forall>p \<in> set (finished s). \<exists>n. snd p = Returned n)
      \<and> (\<forall>tok \<in> set (queue (token_mgr s)). errors (token_mgr s) tok \<noteq> None)
      \<and> (\<forall>w \<in> set (running s). \<forall>tok. snd w = Some tok \<longrightarrow> errors (token_mgr s) tok \<noteq> None))"

text \<open>
  The steps as a function, to run a schedule: a choice names the rule of the step, the
  worker or the future it is about, and the outcome of the request that ends.
\<close>

datatype 'f choice =
    Submit
  | Start
  | Reject nat
  | Borrow nat
  | Respond nat "'f http_result"
  | WriteRow nat
  | ResultRaises nat

definition apply_choice ::
  "'f float_ops \<Rightarrow> int \<Rightarrow> pool_state \<Rightarrow> 'f choice \<Rightarrow> pool_state option" where
  "apply_choice fl max_workers s c =
     (case c of
        Submit \<Rightarrow>
          (case to_submit s of
             [] \<Rightarrow> None
           | t # ts \<Rightarrow> Some (s\<lparr>to_submit := ts, pending := pending s @ [t]\<rparr>))
      | Start \<Rightarrow>
          (case pending s of
             [] \<Rightarrow> None
           | t # ps \<Rightarrow>
               if int (length (running s)) < max_workers
               then Some (s\<lparr>pending := ps, running := running s @ [(t, None)]\<rparr>)
               else None)
      | Reject i \<Rightarrow>
          if i < length (running s) then
            (case running s ! i of
               (t, None) \<Rightarrow>
                 if \<not> valid_task t
                 then Some (s\<lparr>running := drop_nth i (running s),
                              finished := finished s @ [(t, Returned (quantify_loop fl 0 []))]\<rparr>)
                 else None
             | (t, Some tok) \<Rightarrow> None)
          else None
      | Borrow i \<Rightarrow>
          if i < length (running s) then
            (case running s ! i of
               (t, None) \<Rightarrow>
                 if valid_task t then
                   (case get_token (token_mgr s) of
                      None \<Rightarrow> None
                    | Some (tok, tm') \<Rightarrow>
                        Some (s\<lparr>running := (running s)[i := (t, Some tok)], token_mgr := tm'\<rparr>))
                 else None
             | (t, Some tok) \<Rightarrow> None)
          else None
      | Respond i r \<Rightarrow>
          if i < length (running s) then
            (case running s ! i of
               (t, None) \<Rightarrow> None
             | (t, Some tok) \<Rightarrow>
                 (case fetch_try r (token_mgr s) tok of
                    (res, tm') \<Rightarrow>
                      Some (s\<lparr>running := drop_nth i (running s),
                               finished := finished s @ [(t, map_result (quantify_loop fl 0) res)],
                               token_mgr := tm'\<rparr>)))
          else None
      | WriteRow i \<Rightarrow>
          if to_submit s = [] \<and> raised s = None \<and> i < length (finished s) then
            (case finished s ! i of
               ((ramo, estrato, area), Returned tot) \<Rightarrow>
                 Some (s\<lparr>finished := drop_nth i (finished s),
                          rows := rows s @ [(ramo, estrato, tot, area)]\<rparr>)
             | (t, Blocked) \<Rightarrow> None
             | (t, Raised e) \<Rightarrow> None)
          else None
      | ResultRaises i \<Rightarrow>
          if to_submit s = [] \<and> raised s = None \<and> i < length (finished s) then
            (case finished s ! i of
               (t, Raised e) \<Rightarrow> Some (s\<lparr>raised := Some e\<rparr>)
             | (t, Returned tot) \<Rightarrow> None
             | (t, Blocked) \<Rightarrow> None)
          else None)"

fun run_choices ::
  "'f float_ops \<Rightarrow> int \<Rightarrow> pool_state \<Rightarrow> 'f choice list \<Rightarrow> pool_state option" where
  "run_choices fl max_workers s [] = Some s"
| "run_choices fl max_workers s (c # cs) =
     (case apply_choice fl max_workers s c of
        None \<Rightarrow> None
      | Some s' \<Rightarrow> run_choices fl max_workers s' cs)"

section \<open>The main program\<close>

definition ESTRATOS_FIJOS :: "int list" where
  "ESTRATOS_FIJOS = [1, 2, 3, 4, 5, 6, 7]"

definition DEFAULT_WORKERS :: int where
  "DEFAULT_WORKERS = 50"

definition DEFAULT_TOKENS :: "string list" where
  "DEFAULT_TOKENS = [[], [], []]"

definition default_estratos :: string where
  "default_estratos = join '','' (map str_int ESTRATOS_FIJOS)"

record args =
  arg_ramos :: string
  arg_area :: string
  arg_estratos :: string
  arg_tokens :: string
  arg_workers :: int
  arg_output :: string

definition default_args :: args where
  "default_args =
     \<lparr>arg_ramos = ''0'', arg_area = ''municipios.txt'', arg_estratos = default_estratos,
      arg_tokens = join '','' DEFAULT_TOKENS, arg_workers = DEFAULT_WORKERS,
      arg_output = ''denue_municipal.csv''\<rparr>"

definition lower :: "string \<Rightarrow> string" where
  "lower s =
     map (\<lambda>c. if 65 \<le> (of_char c :: nat) \<and> (of_char c :: nat) \<le> 90
               then char_of (of_char c + 32 :: nat) else c) s"

definition endswith :: "string \<Rightarrow> string \<Rightarrow> bool" where
  "endswith s suf = (length suf \<le> length s \<and> drop (length s - length suf) s = suf)"

text \<open>
  How the script ends before \<^verbatim>\<open>generate_csv\<close>, or the call of \<^verbatim>\<open>generate_csv\<close>
  that it makes: the client's token manager, the activities, the strata, the areas, the
  output path and the number of workers.
\<close>

datatype main_outcome =
    Exit nat
  | Hangs
  | Uncaught py_error
  | CallsGenerateCsv token_manager "string list" "int list" "string list" string int

text \<open>
  The script, with the parsed arguments. \<^verbatim>\<open>files\<close> gives the lines of a file that
  can be opened. The second component lists the URLs requested before the end.
\<close>

definition main ::
  "(string \<Rightarrow> 'f http_result) \<Rightarrow> 'f float_ops \<Rightarrow> (string list \<Rightarrow> string list)
     \<Rightarrow> (string \<Rightarrow> string list option) \<Rightarrow> args \<Rightarrow> main_outcome \<times> string list" where
  "main session fl iter_set files a =
     (let toks = filter (\<lambda>t. t \<noteq> []) (map strip (split_on CHR '','' (arg_tokens a)));
          client = TokenManager toks
      in (case get_activities session fl iter_set client (arg_ramos a) of
            (Blocked, tm, urls) \<Rightarrow> (Hangs, urls)
          | (Raised e, tm, urls) \<Rightarrow> (Uncaught e, urls)
          | (Returned actividades, tm, urls) \<Rightarrow>
              if actividades = [] then (Exit 1, urls)
              else
                (let parsed = List.map_filter
                       (\<lambda>e. if validate_estrato (EStr e) False
                             then (case int_of_str e of Inl err \<Rightarrow> None | Inr n \<Rightarrow> Some n)
                             else None)
                       (split_on CHR '','' (arg_estratos a));
                     strata = (if parsed = [] then ESTRATOS_FIJOS else parsed);
                     raw_areas =
                       (if endswith (lower (arg_area a)) ''.txt''
                        then map_option (\<lambda>ls. filter (\<lambda>l. l \<noteq> []) (map strip ls)) (files (arg_area a))
                        else Some (filter (\<lambda>x. x \<noteq> []) (map strip (split_on CHR '','' (arg_area a)))))
                 in (case raw_areas of
                       None \<Rightarrow> (Uncaught OSError, urls)
                     | Some raw \<Rightarrow>
                         (let areas = pad_areas raw in
                          if areas = [] then (Exit 1, urls)
                          else (CallsGenerateCsv tm actividades strata areas (arg_output a)
                                  (arg_workers a), urls))))))"

text \<open>A float interface for examples in which no float occurs.\<close>

definition no_floats :: "unit float_ops" where
  "no_floats = \<lparr>float_int = (\<lambda>x. Inl ValueError), float_bool = (\<lambda>x. True), float_str = (\<lambda>x. ''nan'')\<rparr>"

text \<open>Records for an example: list-shaped and dictionary-shaped, with both spellings.\<close>

definition witness_records :: "unit json list" where
  "witness_records =
     [JList [JStr ''A'', JInt 1, JInt 15],
      JDict [(''AE'', JStr ''11''), (''total'', JStr ''27'')],
      JDict [(''Total'', JInt 0), (''total'', JInt 3)],
      JDict [(''Total'', JStr '' 4''), (''total'', JInt 100)],
      JList [JStr ''B'', JInt 2, JStr [CHR 0x1C, CHR ''5'']],
      JList [JStr ''C'', JInt 3, JInt 1]]"

text \<open>
  A run of four tasks on two workers and two tokens: the schedule, the state it starts
  from, the state after its first 8 steps (both tokens borrowed, the queue empty) and the
  state at its end. The activity \<^verbatim>\<open>7\<close> is invalid; one request is answered with a
  record list and one with HTTP 401.
\<close>

definition example_schedule :: "unit choice list" where
  "example_schedule =
     [Submit, Start, Submit, Borrow 0, Submit, Start, Submit, Borrow 1,
      Respond 1 (Body (JList [JList [JStr ''A'', JInt 1, JInt 15]])), Start, Reject 1,
      Respond 0 (HTTPError 401), WriteRow 2, Start, WriteRow 0, Reject 0, WriteRow 1,
      WriteRow 0]"

definition example_init :: pool_state where
  "example_init =
     generate_csv_init (TokenManager [''t1'', ''t2'']) [''11'', ''7''] [1, 2] [''01001'']"

definition example_mid :: pool_state where
  "example_mid =
     \<lparr>to_submit = [],
      pending = [(''7'', 1, ''01001''), (''7'', 2, ''01001'')],
      running = [((''11'', 1, ''01001''), Some ''t1''), ((''11'', 2, ''01001''), Some ''t2'')],
      finished = [], rows = [],
      token_mgr = \<lparr>queue = [], errors = [''t2'' \<mapsto> 0, ''t1'' \<mapsto> 0]\<rparr>,
      raised = None\<rparr>"

definition example_final :: pool_state where
  "example_final =
     \<lparr>to_submit = [], pending = [], running = [], finished = [],
      rows = [(''11'', 1, 0, ''01001''), (''11'', 2, 15, ''01001''),
              (''7'', 2, 0, ''01001''), (''7'', 1, 0, ''01001'')],
      token_mgr = \<lparr>queue = [''t2'', ''t1''], errors = [''t2'' \<mapsto> 0, ''t1'' \<mapsto> 1]\<rparr>,
      raised = None\<rparr>"

section \<open>Properties of the string built-ins\<close>

lemma is_digit_cases: "is_digit c \<Longrightarrow> c = CHR ''0'' \<or> c = CHR ''1'' \<or> c = CHR ''2'' \<or> c = CHR ''3'' \<or> c = CHR ''4'' \<or> c = CHR ''5'' \<or> c = CHR ''6'' \<or> c = CHR ''7'' \<or> c = CHR ''8'' \<or> c = CHR ''9''"
  by (simp add: is_digit_def)

lemma digit_not_int_space: "is_digit c \<Longrightarrow> \<not> is_int_space c"
  by (auto simp: is_int_space_def dest!: is_digit_cases)

lemma digit_not_sign: "is_digit c \<Longrightarrow> c \<noteq> CHR ''+'' \<and> c \<noteq> CHR ''-''"
  by (auto dest!: is_digit_cases)

lemma digit_not_underscore: "is_digit c \<Longrightarrow> c \<noteq> CHR ''_''"
  by (auto dest!: is_digit_cases)

lemma sign_not_int_space: "\<not> is_int_space CHR ''+'' \<and> \<not> is_int_space CHR ''-''"
  by (simp add: is_int_space_def)

lemma digit_groups_ends:
  "digit_groups ds \<Longrightarrow> ds \<noteq> [] \<and> is_digit (hd ds) \<and> is_digit (last ds)"
  by (induction rule: digit_groups.induct) auto

lemma digit_groups_ok: "digit_groups ds \<Longrightarrow> digits_ok ds"
proof (induction rule: digit_groups.induct)
  case (one c)
  then show ?case by simp
next
  case (more c r)
  from digit_groups_ends [OF more(2)] obtain d r' where r: "r = d # r'" and d: "is_digit d"
    by (cases r) auto
  from d have "d \<noteq> CHR ''_''" by (rule digit_not_underscore)
  with more r show ?case by simp
next
  case (under c r)
  then show ?case by simp
qed

lemma digits_ok_groups: "digits_ok ds \<Longrightarrow> digit_groups ds"
proof (induction ds rule: digits_ok.induct)
  case 1
  then show ?case by simp
next
  case (2 c)
  then show ?case by (simp add: digit_groups.one)
next
  case (3 c d r)
  from "3.prems" have c: "is_digit c" by (simp split: if_splits)
  show ?case
  proof (cases "d = CHR ''_''")
    case True
    with "3.prems" c have "digits_ok r" by simp
    with "3.IH"(1) c True have "digit_groups r" by simp
    with c True show ?thesis by (simp add: digit_groups.under)
  next
    case False
    with "3.prems" c have "digits_ok (d # r)" by simp
    with "3.IH"(2) c False have "digit_groups (d # r)" by simp
    with c show ?thesis by (simp add: digit_groups.more)
  qed
qed

lemma digits_ok_iff: "digits_ok ds = digit_groups ds"
  using digit_groups_ok digits_ok_groups by blast

lemma digit_groups_filter:
  "digit_groups ds \<Longrightarrow> filter (\<lambda>c. c \<noteq> CHR ''_'') ds = filter is_digit ds"
  by (induction rule: digit_groups.induct) (auto simp: digit_not_underscore is_digit_def)

lemma decimal_Cons: "decimal (x # xs) = digit_val x * 10 ^ length xs + decimal xs"
proof -
  let ?f = "\<lambda>i. digit_val ((x # xs) ! i) * 10 ^ (length (x # xs) - Suc i)"
  have "decimal (x # xs) = (\<Sum>i < Suc (length xs). ?f i)"
    by (simp add: decimal_def)
  also have "\<dots> = ?f 0 + (\<Sum>i < length xs. ?f (Suc i))"
    by (rule sum.lessThan_Suc_shift)
  also have "\<dots> = digit_val x * 10 ^ length xs + decimal xs"
    by (simp add: decimal_def)
  finally show ?thesis .
qed

lemma decimal_Nil: "decimal [] = 0"
  by (simp add: decimal_def)

lemma horner_decimal:
  "foldl (\<lambda>acc c. 10 * acc + digit_val c) a xs = a * 10 ^ length xs + decimal xs"
  by (induction xs arbitrary: a) (simp_all add: decimal_Nil decimal_Cons algebra_simps)

lemma digits_value_decimal:
  "digit_groups ds \<Longrightarrow> digits_value ds = decimal (filter is_digit ds)"
  by (simp add: digits_value_def digit_groups_filter horner_decimal)

lemma parse_digits_iff:
  "(parse_digits ds = Inr n) =
   (digit_groups ds \<and> length (filter is_digit ds) \<le> 4300 \<and> n = decimal (filter is_digit ds))"
  by (auto simp: parse_digits_def digits_ok_iff MAX_STR_DIGITS_def digit_groups_filter
      digits_value_decimal)

lemma digit_not_space: "is_digit c \<Longrightarrow> \<not> is_space c"
  by (auto simp: is_space_def dest!: is_digit_cases)

lemma strip_int_split:
  "\<exists>l r. s = l @ strip_int s @ r \<and> list_all is_int_space l \<and> list_all is_int_space r"
proof -
  let ?m = "dropWhile is_int_space s"
  have a: "s = takeWhile is_int_space s @ ?m" by simp
  have b: "rev ?m = takeWhile is_int_space (rev ?m) @ dropWhile is_int_space (rev ?m)" by simp
  have c: "?m = strip_int s @ rev (takeWhile is_int_space (rev ?m))"
  proof -
    have "?m = rev (rev ?m)" by simp
    also have "\<dots> = rev (takeWhile is_int_space (rev ?m) @ dropWhile is_int_space (rev ?m))"
      by simp
    also have "\<dots> = strip_int s @ rev (takeWhile is_int_space (rev ?m))"
      by (simp only: rev_append strip_int_def)
    finally show ?thesis .
  qed
  have la: "list_all is_int_space (takeWhile is_int_space s)"
    by (simp add: list_all_iff) (meson set_takeWhileD)
  have lb: "list_all is_int_space (rev (takeWhile is_int_space (rev ?m)))"
    by (simp add: list_all_iff) (meson set_takeWhileD)
  from a c have "s = takeWhile is_int_space s @ strip_int s @ rev (takeWhile is_int_space (rev ?m))"
    by metis
  with la lb show ?thesis by blast
qed

lemma strip_int_core:
  assumes "m \<noteq> []" "\<not> is_int_space (hd m)" "\<not> is_int_space (last m)"
    and "list_all is_int_space l" "list_all is_int_space r"
  shows "strip_int (l @ m @ r) = m"
proof -
  from assms(1,2) have hm: "dropWhile is_int_space (m @ r) = m @ r" by (cases m) auto
  from assms(4) have d1: "dropWhile is_int_space (l @ m @ r) = m @ r"
    by (simp add: dropWhile_append2 list_all_iff hm)
  from assms(1,3) have hr: "dropWhile is_int_space (rev m) = rev m"
    by (cases "rev m") (auto simp: hd_rev)
  from assms(1) have rn: "rev m \<noteq> []" by simp
  from assms(5) have "\<And>x. x \<in> set (rev r) \<Longrightarrow> is_int_space x"
    by (simp add: list_all_iff)
  then have "dropWhile is_int_space (rev r @ rev m) = dropWhile is_int_space (rev m)"
    by (rule dropWhile_append2)
  with hr have d2: "dropWhile is_int_space (rev r @ rev m) = rev m" by simp
  show ?thesis by (simp add: strip_int_def d1 d2)
qed

lemma int_of_str_error: "int_of_str s = Inl e \<Longrightarrow> e = ValueError"
  by (auto simp: int_of_str_def parse_digits_def map_sum_def split: list.splits if_splits sum.splits)

lemma int_of_str_denotes_1: "int_of_str s = Inr n \<Longrightarrow> denotes s n"
proof -
  assume a: "int_of_str s = Inr n"
  obtain l r where s: "s = l @ strip_int s @ r" and l: "list_all is_int_space l"
    and r: "list_all is_int_space r"
    using strip_int_split by blast
  from a obtain c cs where m: "strip_int s = c # cs"
    by (cases "strip_int s") (simp_all add: int_of_str_def)
  show ?thesis
  proof (cases "c = CHR ''-''")
    case True
    with a m obtain k where k: "parse_digits cs = Inr k" and n: "n = - k"
      by (cases "parse_digits cs") (auto simp: int_of_str_def)
    from k have "digit_groups cs \<and> length (filter is_digit cs) \<le> 4300
        \<and> k = decimal (filter is_digit cs)" by (simp add: parse_digits_iff)
    moreover from s m True have "s = l @ ''-'' @ cs @ r" by simp
    ultimately show ?thesis unfolding denotes_def using l r n by blast
  next
    case False
    show ?thesis
    proof (cases "c = CHR ''+''")
      case True
      with a m False have k: "parse_digits cs = Inr n" by (simp add: int_of_str_def)
      then have "digit_groups cs \<and> length (filter is_digit cs) \<le> 4300
        \<and> n = decimal (filter is_digit cs)" by (simp add: parse_digits_iff)
      moreover from s m True have "s = l @ ''+'' @ cs @ r" by simp
      ultimately show ?thesis unfolding denotes_def using l r by blast
    next
      case F2: False
      with a m False have k: "parse_digits (c # cs) = Inr n" by (simp add: int_of_str_def)
      then have "digit_groups (c # cs) \<and> length (filter is_digit (c # cs)) \<le> 4300
        \<and> n = decimal (filter is_digit (c # cs))" by (simp only: parse_digits_iff)
      moreover from s m have "s = l @ [] @ (c # cs) @ r" by simp
      ultimately show ?thesis unfolding denotes_def using l r by blast
    qed
  qed
qed

lemma int_of_str_denotes_2: "denotes s n \<Longrightarrow> int_of_str s = Inr n"
proof -
  assume "denotes s n"
  then obtain l sg body r where s: "s = l @ sg @ body @ r"
    and l: "list_all is_int_space l" and r: "list_all is_int_space r"
    and g: "digit_groups body" and len: "length (filter is_digit body) \<le> 4300"
    and v: "((sg = [] \<or> sg = ''+'') \<and> n = decimal (filter is_digit body))
           \<or> (sg = ''-'' \<and> n = - decimal (filter is_digit body))"
    unfolding denotes_def by blast
  from digit_groups_ends [OF g] obtain c cs where b: "body = c # cs" and c: "is_digit c"
    and lastd: "is_digit (last body)"
    by (cases body) auto
  from g len have p: "parse_digits body = Inr (decimal (filter is_digit body))"
    by (simp add: parse_digits_iff)
  have sgc: "sg = [] \<or> sg = ''+'' \<or> sg = ''-''" using v by blast
  have ne: "sg @ body \<noteq> []" using b by simp
  have h: "\<not> is_int_space (hd (sg @ body))"
    using sgc b c by (auto simp: digit_not_int_space sign_not_int_space)
  have la: "\<not> is_int_space (last (sg @ body))"
    using b lastd by (simp add: digit_not_int_space)
  from strip_int_core [OF ne h la l r] s have st: "strip_int s = sg @ body" by simp
  from v show ?thesis
  proof
    assume a: "(sg = [] \<or> sg = ''+'') \<and> n = decimal (filter is_digit body)"
    then show ?thesis
    proof (cases "sg = []")
      case True
      with st b have "strip_int s = c # cs" by simp
      with p b a digit_not_sign [OF c] show ?thesis by (simp add: int_of_str_def)
    next
      case False
      with a have "sg = ''+''" by simp
      with st have "strip_int s = CHR ''+'' # body" by simp
      with p a show ?thesis by (simp add: int_of_str_def)
    qed
  next
    assume a: "sg = ''-'' \<and> n = - decimal (filter is_digit body)"
    with st have "strip_int s = CHR ''-'' # body" by simp
    with p a show ?thesis by (simp add: int_of_str_def)
  qed
qed

lemma int_of_str_denotes: "(int_of_str s = Inr n) = denotes s n"
  using int_of_str_denotes_1 int_of_str_denotes_2 by blast

lemma strip_int_single: "strip_int [c] = (if is_int_space c then [] else [c])"
  by (simp add: strip_int_def)

lemma int_of_str_digit: "is_digit c \<Longrightarrow> int_of_str [c] = Inr (digit_val c)"
  by (simp add: int_of_str_def strip_int_single digit_not_int_space digit_not_sign
      digit_not_underscore parse_digits_def digits_value_def MAX_STR_DIGITS_def)

lemma int_of_str_non_digit: "\<not> is_digit c \<Longrightarrow> int_of_str [c] = Inl ValueError"
  by (simp add: int_of_str_def strip_int_single parse_digits_def)

lemma digit_val_1_7: "is_digit c \<Longrightarrow> (1 \<le> digit_val c \<and> digit_val c \<le> 7) = (c \<in> set ''1234567'')"
  by (drule is_digit_cases, elim disjE; simp add: digit_val_def)

lemma digit_val_0: "is_digit c \<Longrightarrow> (digit_val c = 0) = (c = CHR ''0'')"
  by (auto simp: digit_val_def dest!: is_digit_cases)

lemma non_digit_not_in: "\<not> is_digit c \<Longrightarrow> c \<notin> set ''1234567'' \<and> c \<noteq> CHR ''0''"
  by (auto simp: is_digit_def)

lemmas int_eval = int_of_str_def strip_int_def is_int_space_def parse_digits_def is_digit_def
  digits_value_def digit_val_def MAX_STR_DIGITS_def

lemma strip_no_space:
  assumes "s \<noteq> []" "\<not> is_space (hd s)" "\<not> is_space (last s)"
  shows "strip s = s"
proof -
  from assms have a: "dropWhile is_space s = s" by (cases s) auto
  from assms have "rev s \<noteq> []" "\<not> is_space (hd (rev s))" by (auto simp: hd_rev)
  then have b: "dropWhile is_space (rev s) = rev s" by (cases "rev s") auto
  show ?thesis by (simp add: strip_def a b)
qed

lemma strip_isdigit: "isdigit s \<Longrightarrow> strip s = s"
proof -
  assume d: "isdigit s"
  then have ne: "s \<noteq> []" and all: "list_all is_digit s" by (auto simp: isdigit_def)
  from ne all have "is_digit (hd s)" "is_digit (last s)" by (auto simp: list_all_iff)
  then show ?thesis using ne by (intro strip_no_space) (auto dest: digit_not_space)
qed

lemma strip_zero: "strip ''0'' = ''0''"
  by (simp add: strip_def is_space_def)

section \<open>Area padding\<close>

lemma zfill_isdigit:
  assumes "isdigit a" "length a \<le> 5"
  shows "isdigit (zfill 5 a) \<and> length (zfill 5 a) = 5"
proof -
  from assms obtain c cs where a: "a = c # cs" and c: "is_digit c" and cs: "list_all is_digit cs"
    by (cases a) (auto simp: isdigit_def)
  from c have ns: "c \<noteq> CHR ''+''" "c \<noteq> CHR ''-''" by (auto simp: is_digit_def)
  have z: "is_digit CHR ''0''" by (simp add: is_digit_def)
  show ?thesis using assms(2) c cs ns z
    by (auto simp: zfill_def a isdigit_def list_all_iff)
qed

lemma zfill_full: "length a = 5 \<Longrightarrow> zfill 5 a = a"
  by (simp add: zfill_def)

lemma pad_step_valid: "validate_area a \<Longrightarrow> pad_step out a = out @ [a]"
  by (auto simp: validate_area_def pad_step_def strip_zero strip_isdigit zfill_full Let_def)

lemma pad_step_cases:
  "pad_step out a = out \<or> (\<exists>b. pad_step out a = out @ [b] \<and> validate_area b)"
  by (auto simp: pad_step_def Let_def validate_area_def dest: zfill_isdigit)

lemma foldl_pad_step_valid:
  "list_all validate_area out \<Longrightarrow> list_all validate_area (foldl pad_step out xs)"
proof (induction xs arbitrary: out)
  case Nil then show ?case by simp
next
  case (Cons a xs)
  from pad_step_cases [of out a] Cons.prems have "list_all validate_area (pad_step out a)"
    by auto
  then show ?case using Cons.IH by simp
qed

lemma foldl_pad_step_id:
  "list_all validate_area ys \<Longrightarrow> foldl pad_step out ys = out @ ys"
  by (induction ys arbitrary: out) (auto simp: pad_step_valid)


lemma foldl_ins_key_set: "set (foldl ins_key acc xs) = set acc \<union> set xs"
  by (induction xs arbitrary: acc) (auto simp: ins_key_def)

lemma foldl_ins_key_distinct: "distinct acc \<Longrightarrow> distinct (foldl ins_key acc xs)"
  by (induction xs arbitrary: acc) (auto simp: ins_key_def)

lemma foldl_ins_key_id: "distinct (acc @ xs) \<Longrightarrow> foldl ins_key acc xs = acc @ xs"
  by (induction xs arbitrary: acc) (auto simp: ins_key_def)

lemma set_fromkeys: "set (fromkeys xs) = set xs"
  by (simp add: fromkeys_def foldl_ins_key_set)

lemma distinct_fromkeys: "distinct (fromkeys xs)"
  by (simp add: fromkeys_def foldl_ins_key_distinct)

lemma fromkeys_distinct_id: "distinct xs \<Longrightarrow> fromkeys xs = xs"
  using foldl_ins_key_id [of "[]" xs] by (simp add: fromkeys_def)

lemma pad_areas_valid: "list_all validate_area (pad_areas xs)"
proof -
  have "list_all validate_area (foldl pad_step [] xs)"
    by (rule foldl_pad_step_valid) simp
  then show ?thesis by (simp add: pad_areas_def list_all_iff set_fromkeys)
qed


text \<open>
  C8: \<^verbatim>\<open>pad_areas\<close> applied to its own output gives the same list; a code of
  five digits is returned unchanged, \<^verbatim>\<open>"9"\<close> becomes \<^verbatim>\<open>"00009"\<close>, and the
  literal \<^verbatim>\<open>"0"\<close> stays \<^verbatim>\<open>"0"\<close>.
\<close>

theorem pad_areas_idempotent:
  "pad_areas (pad_areas xs) = pad_areas xs
   \<and> (isdigit c \<and> length c = 5 \<longrightarrow> pad_areas [c] = [c])
   \<and> pad_areas [''9''] = [''00009'']
   \<and> pad_areas [''0''] = [''0'']"
proof -
  have "foldl pad_step [] (pad_areas xs) = pad_areas xs"
    using foldl_pad_step_id [OF pad_areas_valid, of "[]" xs] by simp
  then have idem: "pad_areas (pad_areas xs) = pad_areas xs"
    using fromkeys_distinct_id [OF distinct_fromkeys, of "foldl pad_step [] xs"]
    by (simp add: pad_areas_def)
  have five: "pad_areas [c] = [c]" if "isdigit c" "length c = 5"
    using that by (simp add: pad_areas_def pad_step_valid validate_area_def fromkeys_def ins_key_def)
  have nine: "pad_areas [''9''] = [''00009'']" by code_simp
  have zero: "pad_areas [''0''] = [''0'']" by code_simp
  show ?thesis using idem five nine zero by blast
qed

theorem pad_areas_idempotent_witness:
  "isdigit ''01001'' \<and> length ''01001'' = 5 \<and> pad_areas [''01001''] = [''01001'']
   \<and> pad_areas (pad_areas ['' 9'', ''x'', ''9'', ''0'']) = pad_areas ['' 9'', ''x'', ''9'', ''0'']
   \<and> pad_areas ['' 9'', ''x'', ''9'', ''0''] = [''00009'', ''0'']"
proof -
  have d: "isdigit ''01001'' \<and> length ''01001'' = 5" by (simp add: isdigit_def is_digit_def)
  have e: "pad_areas ['' 9'', ''x'', ''9'', ''0''] = [''00009'', ''0'']" by code_simp
  show ?thesis
    using d e pad_areas_idempotent [of "['' 9'', ''x'', ''9'', ''0'']" "''01001''"] by simp
qed


section \<open>Stratum validation\<close>

text \<open>
  C9: \<^verbatim>\<open>validate_estrato\<close> is true exactly for the values that denote an integer
  from 1 to 7, and for 0 when \<^verbatim>\<open>allow_zero\<close> is set, and false for every other
  value: for an integer argument by its value; for a string argument when the string
  denotes such an integer (white space, an optional sign, digits); a string of one
  character is accepted exactly when the character is one of 1 to 7, or 0 with
  \<^verbatim>\<open>allow_zero\<close>.
\<close>

theorem validate_estrato_spec:
  "validate_estrato (EInt n) allow_zero = ((1 \<le> n \<and> n \<le> 7) \<or> (allow_zero \<and> n = 0))
   \<and> validate_estrato (EStr s) allow_zero =
       (\<exists>n. denotes s n \<and> ((1 \<le> n \<and> n \<le> 7) \<or> (allow_zero \<and> n = 0)))
   \<and> validate_estrato (EStr [c]) allow_zero =
       (c \<in> set ''1234567'' \<or> (allow_zero \<and> c = CHR ''0''))"
proof -
  have a: "validate_estrato (EInt n) allow_zero = ((1 \<le> n \<and> n \<le> 7) \<or> (allow_zero \<and> n = 0))"
    by (auto simp: validate_estrato_def int_of_estrato_def)
  have b: "validate_estrato (EStr s) allow_zero =
       (\<exists>n. denotes s n \<and> ((1 \<le> n \<and> n \<le> 7) \<or> (allow_zero \<and> n = 0)))"
    by (cases "int_of_str s")
      (auto simp: validate_estrato_def int_of_estrato_def simp flip: int_of_str_denotes)
  have c: "validate_estrato (EStr [c]) allow_zero =
       (c \<in> set ''1234567'' \<or> (allow_zero \<and> c = CHR ''0''))"
  proof (cases "is_digit c")
    case True
    have "validate_estrato (EStr [c]) allow_zero =
        ((1 \<le> digit_val c \<and> digit_val c \<le> 7) \<or> (allow_zero \<and> digit_val c = 0))"
      by (auto simp: validate_estrato_def int_of_estrato_def int_of_str_digit [OF True])
    then show ?thesis by (simp only: digit_val_1_7 [OF True] digit_val_0 [OF True])
  next
    case False
    then show ?thesis
      using non_digit_not_in [OF False]
      by (simp add: validate_estrato_def int_of_estrato_def int_of_str_non_digit)
  qed
  show ?thesis using a b c by blast
qed

theorem validate_estrato_spec_witness:
  "validate_estrato (EStr [CHR '' '', CHR ''+'', CHR ''0'', CHR ''_'', CHR ''7'', CHR 0x0A]) False
   \<and> (\<exists>n. denotes [CHR '' '', CHR ''+'', CHR ''0'', CHR ''_'', CHR ''7'', CHR 0x0A] n
          \<and> 1 \<le> n \<and> n \<le> 7)
   \<and> \<not> validate_estrato (EStr [CHR 0x1C, CHR ''5'']) False
   \<and> \<not> denotes [CHR 0x1C, CHR ''5''] 5
   \<and> \<not> validate_estrato (EStr ''08'') False
   \<and> \<not> validate_estrato (EStr ''1.0'') False
   \<and> \<not> validate_estrato (EStr ''7_'') False
   \<and> \<not> validate_estrato (EStr ''- 7'') False
   \<and> \<not> validate_estrato (EStr []) True
   \<and> \<not> validate_estrato (EStr ''0'') False
   \<and> validate_estrato (EStr ''-0'') True
   \<and> validate_estrato (EInt 7) False
   \<and> \<not> validate_estrato (EInt 8) False
   \<and> \<not> validate_estrato (EInt 0) False
   \<and> validate_estrato (EInt 0) True"
proof -
  let ?s = "[CHR '' '', CHR ''+'', CHR ''0'', CHR ''_'', CHR ''7'', CHR 0x0A]"
  have v: "validate_estrato (EStr ?s) False"
    by (simp add: validate_estrato_def int_of_estrato_def int_eval)
  have w: "\<not> validate_estrato (EStr [CHR 0x1C, CHR ''5'']) False"
    by (simp add: validate_estrato_def int_of_estrato_def int_eval)
  from v validate_estrato_spec [of _ False ?s]
  have d: "\<exists>n. denotes ?s n \<and> 1 \<le> n \<and> n \<le> 7" by simp
  from w validate_estrato_spec [of _ False "[CHR 0x1C, CHR ''5'']"]
  have ne: "\<not> (\<exists>n. denotes [CHR 0x1C, CHR ''5''] n \<and> 1 \<le> n \<and> n \<le> 7)" by simp
  have e: "\<not> denotes [CHR 0x1C, CHR ''5''] 5"
  proof
    assume "denotes [CHR 0x1C, CHR ''5''] 5"
    then have "denotes [CHR 0x1C, CHR ''5''] 5 \<and> (1 :: int) \<le> 5 \<and> (5 :: int) \<le> 7" by simp
    then have "\<exists>n. denotes [CHR 0x1C, CHR ''5''] n \<and> 1 \<le> n \<and> n \<le> 7" by (rule exI)
    with ne show False by contradiction
  qed
  have rest: "\<not> validate_estrato (EStr ''08'') False
   \<and> \<not> validate_estrato (EStr ''1.0'') False
   \<and> \<not> validate_estrato (EStr ''7_'') False
   \<and> \<not> validate_estrato (EStr ''- 7'') False
   \<and> \<not> validate_estrato (EStr []) True
   \<and> \<not> validate_estrato (EStr ''0'') False
   \<and> validate_estrato (EStr ''-0'') True"
    by (simp add: validate_estrato_def int_of_estrato_def int_eval)
  have ints: "validate_estrato (EInt 7) False
   \<and> \<not> validate_estrato (EInt 8) False
   \<and> \<not> validate_estrato (EInt 0) False
   \<and> validate_estrato (EInt 0) True"
    using validate_estrato_spec [of 7 False] validate_estrato_spec [of 8 False]
      validate_estrato_spec [of 0 False] validate_estrato_spec [of 0 True] by simp
  from v d w e rest ints show ?thesis by blast
qed

section \<open>The token pool over sequences of calls\<close>

lemma pool_inv_init: "distinct tokens \<Longrightarrow> pool_inv tokens (TokenManager tokens) []"
  by (auto simp: pool_inv_def TokenManager_def MAX_RETRIES_PER_TOKEN_def map_of_map_restrict)

lemma pool_inv_get:
  assumes "pool_inv tokens tm held" "get_token tm = Some (t, tm')"
  shows "pool_inv tokens tm' (t # held) \<and> t \<in> set tokens
         \<and> (\<exists>k. errors tm t = Some k \<and> k < MAX_RETRIES_PER_TOKEN)"
  using assms by (auto simp: pool_inv_def get_token_def split: list.splits)

lemma pool_inv_release:
  assumes "pool_inv tokens tm held" "t \<in> set held" "release tm t ok = Inr tm'"
  shows "pool_inv tokens tm' (remove1 t held)"
proof -
  from assms(1) have d: "distinct (queue tm @ held)" by (simp add: pool_inv_def)
  from d assms(2) have nq: "t \<notin> set (queue tm)" by auto
  from d have dh: "distinct held" by simp
  from dh have nr: "t \<notin> set (remove1 t held)" by simp
  have sub: "set (remove1 t held) \<subseteq> set held" by (rule set_remove1_subset)
  from assms(1) assms(2) obtain k where k: "errors tm t = Some k" "k < MAX_RETRIES_PER_TOKEN" "t \<in> set tokens"
    by (auto simp: pool_inv_def)
  have dist': "distinct (queue tm @ remove1 t held)"
    using d sub by auto
  show ?thesis
  proof (cases ok)
    case True
    with assms(3) have tm': "tm' = tm\<lparr>queue := queue tm @ [t]\<rparr>" by (simp add: release_def)
    show ?thesis
      using assms(1) dist' nq nr sub k unfolding pool_inv_def tm'
      by auto
  next
    case False
    show ?thesis
    proof (cases "MAX_RETRIES_PER_TOKEN \<le> k + 1")
      case True
      with False assms(3) k have tm': "tm' = tm\<lparr>errors := (errors tm)(t \<mapsto> k + 1)\<rparr>"
        by (simp add: release_def)
      show ?thesis
        using assms(1) dist' nq nr sub unfolding pool_inv_def tm'
        by auto
    next
      case F2: False
      with False assms(3) k
      have tm': "tm' = tm\<lparr>errors := (errors tm)(t \<mapsto> k + 1), queue := queue tm @ [t]\<rparr>"
        by (simp add: release_def)
      show ?thesis
        using assms(1) dist' nq nr sub k F2 unfolding pool_inv_def tm'
        by auto
    qed
  qed
qed

lemma get_token_queue: "get_token tm = Some (t, tm') \<Longrightarrow> queue tm = t # queue tm'"
  by (auto simp: get_token_def split: list.splits)

lemma release_queue:
  "release tm t ok = Inr tm' \<Longrightarrow> set (queue tm') \<subseteq> insert t (set (queue tm))"
  by (auto simp: release_def Let_def split: if_splits option.splits)

lemma not_circulating:
  "u \<notin> set (queue tm) \<Longrightarrow> u \<notin> set held \<Longrightarrow> lawful held (run_ops tm ops) \<Longrightarrow>
   Got u c \<notin> set (run_ops tm ops)"
proof (induction ops arbitrary: tm held)
  case Nil
  then show ?case by simp
next
  case (Cons op ops)
  show ?case
  proof (cases op)
    case Get
    show ?thesis
    proof (cases "get_token tm")
      case None
      then show ?thesis by (simp add: Get)
    next
      case (Some p)
      obtain t tm' where p: "p = (t, tm')" by (cases p)
      from Some p have q: "queue tm = t # queue tm'" by (simp add: get_token_queue)
      from q Cons.prems(1) have ne: "u \<noteq> t" and nq: "u \<notin> set (queue tm')" by auto
      from Cons.prems(3) have law: "lawful (t # held) (run_ops tm' ops)"
        by (simp add: Get Some p)
      from ne Cons.prems(2) have nh: "u \<notin> set (t # held)" by simp
      from Cons.IH [OF nq nh law] ne show ?thesis by (simp add: Get Some p)
    qed
  next
    case (Release t ok)
    show ?thesis
    proof (cases "release tm t ok")
      case (Inl e)
      then show ?thesis by (simp add: Release)
    next
      case (Inr tm')
      from Cons.prems(3) have th: "t \<in> set held" and law: "lawful (remove1 t held) (run_ops tm' ops)"
        by (simp_all add: Release Inr)
      from th Cons.prems(2) have ne: "u \<noteq> t" by auto
      from release_queue [OF Inr] ne Cons.prems(1) have nq: "u \<notin> set (queue tm')" by auto
      from Cons.prems(2) have nh: "u \<notin> set (remove1 t held)"
        using set_remove1_subset [of t held] by auto
      from Cons.IH [OF nq nh law] show ?thesis by (simp add: Release Inr)
    qed
  qed
qed

lemma got_below_threshold:
  "pool_inv tokens tm held \<Longrightarrow> lawful held (run_ops tm ops) \<Longrightarrow>
   Got u c \<in> set (run_ops tm ops) \<Longrightarrow>
   u \<in> set tokens \<and> (\<exists>k. c = Some k \<and> k < MAX_RETRIES_PER_TOKEN)"
proof (induction ops arbitrary: tm held)
  case Nil
  then show ?case by simp
next
  case (Cons op ops)
  show ?case
  proof (cases op)
    case Get
    show ?thesis
    proof (cases "get_token tm")
      case None
      with Cons.prems(3) show ?thesis by (simp add: Get)
    next
      case (Some p)
      obtain t tm' where p: "p = (t, tm')" by (cases p)
      from Some p have g: "get_token tm = Some (t, tm')" by simp
      note inv = pool_inv_get [OF Cons.prems(1) g]
      from Cons.prems(2) have law: "lawful (t # held) (run_ops tm' ops)"
        by (simp add: Get g)
      from Cons.prems(3) have "(u = t \<and> c = errors tm t) \<or> Got u c \<in> set (run_ops tm' ops)"
        by (simp add: Get g)
      then show ?thesis
      proof
        assume "u = t \<and> c = errors tm t"
        with inv show ?thesis by auto
      next
        assume "Got u c \<in> set (run_ops tm' ops)"
        with Cons.IH [of tm' "t # held"] inv law show ?thesis by blast
      qed
    qed
  next
    case (Release t ok)
    show ?thesis
    proof (cases "release tm t ok")
      case (Inl e)
      with Cons.prems(3) show ?thesis by (simp add: Release)
    next
      case (Inr tm')
      from Cons.prems(2) have th: "t \<in> set held" and law: "lawful (remove1 t held) (run_ops tm' ops)"
        by (simp_all add: Release Inr)
      note inv = pool_inv_release [OF Cons.prems(1) th Inr]
      from Cons.prems(3) have "Got u c \<in> set (run_ops tm' ops)"
        by (simp add: Release Inr)
      with Cons.IH [OF inv law] show ?thesis by blast
    qed
  qed
qed

lemma release_retires:
  assumes "pool_inv tokens tm held" "t \<in> set held" "release tm t ok = Inr tm'"
    and "errors tm' t = Some k" "MAX_RETRIES_PER_TOKEN \<le> k"
  shows "t \<notin> set (queue tm') \<and> t \<notin> set (remove1 t held)"
proof -
  from assms(1) have d: "distinct (queue tm @ held)" by (simp add: pool_inv_def)
  from d assms(2) have nq: "t \<notin> set (queue tm)" by auto
  from d have nr: "t \<notin> set (remove1 t held)" by simp
  from assms(1) assms(2) obtain j where j: "errors tm t = Some j" "j < MAX_RETRIES_PER_TOKEN"
    by (auto simp: pool_inv_def)
  from assms(3-5) j nq have "t \<notin> set (queue tm')"
    by (auto simp: release_def Let_def split: if_splits)
  with nr show ?thesis by simp
qed

lemma retired_never_returned:
  "pool_inv tokens tm held \<Longrightarrow> lawful held (run_ops tm ops) \<Longrightarrow>
   run_ops tm ops = pre @ Put u ok (Some k) # post \<Longrightarrow> MAX_RETRIES_PER_TOKEN \<le> k \<Longrightarrow>
   Got u c \<notin> set post"
proof (induction ops arbitrary: tm held pre)
  case Nil
  then show ?case by simp
next
  case (Cons op ops)
  show ?case
  proof (cases op)
    case Get
    show ?thesis
    proof (cases "get_token tm")
      case None
      with Cons.prems(3) show ?thesis by (cases pre) (simp_all add: Get)
    next
      case (Some p)
      obtain t tm' where p: "p = (t, tm')" by (cases p)
      from Some p have g: "get_token tm = Some (t, tm')" by simp
      note inv = pool_inv_get [OF Cons.prems(1) g]
      from Cons.prems(2) have law: "lawful (t # held) (run_ops tm' ops)"
        by (simp add: Get g)
      from Cons.prems(3) obtain pre' where
        "run_ops tm' ops = pre' @ Put u ok (Some k) # post"
        by (cases pre) (simp_all add: Get g)
      with Cons.IH [of tm' "t # held" pre'] inv law Cons.prems(4) show ?thesis by blast
    qed
  next
    case (Release t b)
    show ?thesis
    proof (cases "release tm t b")
      case (Inl e)
      with Cons.prems(3) show ?thesis by (cases pre) (simp_all add: Release)
    next
      case (Inr tm')
      from Cons.prems(2) have th: "t \<in> set held" and law: "lawful (remove1 t held) (run_ops tm' ops)"
        by (simp_all add: Release Inr)
      note inv = pool_inv_release [OF Cons.prems(1) th Inr]
      show ?thesis
      proof (cases pre)
        case Nil
        with Cons.prems(3) have e: "u = t" "errors tm' t = Some k" "post = run_ops tm' ops"
          by (auto simp: Release Inr)
        from release_retires [OF Cons.prems(1) th Inr e(2) Cons.prems(4)]
        have "t \<notin> set (queue tm')" "t \<notin> set (remove1 t held)" by simp_all
        from not_circulating [OF this law] e show ?thesis by simp
      next
        case (Cons ev pre')
        with Cons.prems(3) have "run_ops tm' ops = pre' @ Put u ok (Some k) # post"
          by (simp add: Release Inr)
        from Cons.IH [OF inv law this Cons.prems(4)] show ?thesis .
      qed
    qed
  qed
qed

lemma run_single:
  "run_ops (TokenManager [''a''])
      [Get, Release ''a'' False, Get, Release ''a'' False, Get, Release ''a'' False, Get]
   = [Got ''a'' (Some 0), Put ''a'' False (Some 1), Got ''a'' (Some 1), Put ''a'' False (Some 2),
      Got ''a'' (Some 2), Put ''a'' False (Some 3), Waits]"
  by (simp add: TokenManager_def get_token_def release_def MAX_RETRIES_PER_TOKEN_def)

text \<open>
  On a list of pairwise distinct tokens, and with every release giving back a token
  borrowed before and not yet released, the pool does retire: every token returned was
  supplied and has a failure count below the threshold, and a token whose count reached
  the threshold is not returned again. That a returned token was supplied needs no
  distinctness.
\<close>

lemma got_supplied:
  "set (queue tm) \<union> set held \<subseteq> set tokens \<Longrightarrow> lawful held (run_ops tm ops) \<Longrightarrow>
   Got u c \<in> set (run_ops tm ops) \<Longrightarrow> u \<in> set tokens"
proof (induction ops arbitrary: tm held)
  case Nil
  then show ?case by simp
next
  case (Cons op ops)
  show ?case
  proof (cases op)
    case Get
    show ?thesis
    proof (cases "get_token tm")
      case None
      with Cons.prems(3) show ?thesis by (simp add: Get)
    next
      case (Some p)
      obtain t tm' where p: "p = (t, tm')" by (cases p)
      from Some p have g: "get_token tm = Some (t, tm')" by simp
      then have q: "queue tm = t # queue tm'"
        by (auto simp: get_token_def split: list.splits)
      from q Cons.prems(1) have sub: "set (queue tm') \<union> set (t # held) \<subseteq> set tokens"
        and tin: "t \<in> set tokens" by auto
      from Cons.prems(2) have law: "lawful (t # held) (run_ops tm' ops)" by (simp add: Get g)
      from Cons.prems(3) have "u = t \<or> Got u c \<in> set (run_ops tm' ops)" by (auto simp: Get g)
      with Cons.IH [OF sub law] tin show ?thesis by blast
    qed
  next
    case (Release t ok)
    show ?thesis
    proof (cases "release tm t ok")
      case (Inl e)
      with Cons.prems(3) show ?thesis by (simp add: Release)
    next
      case (Inr tm')
      from Cons.prems(2) have th: "t \<in> set held" and law: "lawful (remove1 t held) (run_ops tm' ops)"
        by (simp_all add: Release Inr)
      have "set (queue tm') \<subseteq> insert t (set (queue tm))"
        using Inr by (auto simp: release_def Let_def split: if_splits option.splits)
      with th Cons.prems(1) set_remove1_subset [of t held]
      have sub: "set (queue tm') \<union> set (remove1 t held) \<subseteq> set tokens" by auto
      from Cons.prems(3) have "Got u c \<in> set (run_ops tm' ops)" by (simp add: Release Inr)
      with Cons.IH [OF sub law] show ?thesis by blast
    qed
  qed
qed

theorem distinct_pool_retires:
  assumes "distinct tokens"
    and "lawful [] (run_ops (TokenManager tokens) ops)"
  shows "(Got t c \<in> set (run_ops (TokenManager tokens) ops) \<longrightarrow>
            t \<in> set tokens \<and> (\<exists>k. c = Some k \<and> k < MAX_RETRIES_PER_TOKEN))
         \<and> (run_ops (TokenManager tokens) ops = pre @ Put t ok (Some k) # post
              \<and> MAX_RETRIES_PER_TOKEN \<le> k \<longrightarrow> (\<forall>c'. Got t c' \<notin> set post))"
  using got_below_threshold [OF pool_inv_init [OF assms(1)] assms(2)]
    retired_never_returned [OF pool_inv_init [OF assms(1)] assms(2)]
  by blast

theorem distinct_pool_retires_example:
  "distinct [''a'']
   \<and> run_ops (TokenManager [''a''])
        [Get, Release ''a'' False, Get, Release ''a'' False, Get, Release ''a'' False, Get]
      = [Got ''a'' (Some 0), Put ''a'' False (Some 1), Got ''a'' (Some 1),
         Put ''a'' False (Some 2), Got ''a'' (Some 2)] @ Put ''a'' False (Some 3) # [Waits]
   \<and> lawful [] (run_ops (TokenManager [''a''])
        [Get, Release ''a'' False, Get, Release ''a'' False, Get, Release ''a'' False, Get])
   \<and> MAX_RETRIES_PER_TOKEN \<le> 3
   \<and> Got ''a'' (Some 2) \<in> set (run_ops (TokenManager [''a''])
        [Get, Release ''a'' False, Get, Release ''a'' False, Get, Release ''a'' False, Get])
   \<and> ''a'' \<in> set [''a''] \<and> 2 < MAX_RETRIES_PER_TOKEN
   \<and> (\<forall>c'. Got ''a'' c' \<notin> set [Waits])"
proof -
  let ?ops = "[Get, Release ''a'' False, Get, Release ''a'' False, Get, Release ''a'' False, Get]"
  have d: "distinct [''a'']" by simp
  have l: "lawful [] (run_ops (TokenManager [''a'']) ?ops)" unfolding run_single by simp
  have m: "MAX_RETRIES_PER_TOKEN \<le> 3" "2 < MAX_RETRIES_PER_TOKEN"
    by (simp_all add: MAX_RETRIES_PER_TOKEN_def)
  note t = distinct_pool_retires [OF d l, of "''a''" "Some 2"
      "[Got ''a'' (Some 0), Put ''a'' False (Some 1), Got ''a'' (Some 1),
         Put ''a'' False (Some 2), Got ''a'' (Some 2)]" False 3 "[Waits]"]
  show ?thesis using d l m t unfolding run_single by simp
qed

section \<open>Fetching\<close>

lemma valid_11: "validate_actividad ''11''"
  by (simp add: validate_actividad_def isdigit_def is_digit_def)

lemma valid_01001: "validate_area ''01001''"
  by (simp add: validate_area_def isdigit_def is_digit_def)

lemma valid_1: "validate_estrato (EInt 1) False"
  by (simp add: validate_estrato_def int_of_estrato_def)

lemma fetch_example:
  "fetch (\<lambda>u. Body (JList xs)) (TokenManager [''t1'']) ''11'' ''01001'' (EInt 1) False =
     (Returned xs, TokenManager [''t1''], [request_url ''11'' ''01001'' (EInt 1) ''t1''])"
  by (simp add: fetch_def valid_11 valid_01001 valid_1 get_token_def TokenManager_def
      fetch_try_def release_def)

lemma get_token_Some: "get_token tm = Some (token, tm1) \<Longrightarrow>
   queue tm = token # queue tm1 \<and> errors tm1 = errors tm"
  by (auto simp: get_token_def split: list.splits)

text \<open>
  C2: a token supplied twice is returned after it was disabled. With the tokens a, a and
  every request answered 401, the third \<^verbatim>\<open>fetch\<close> brings the failure count of a to
  the threshold 3 and does not put that copy back; the other copy is still in the queue,
  and \<^verbatim>\<open>get_token\<close> returns it to the fourth \<^verbatim>\<open>fetch\<close>, which requests with it.
\<close>

theorem duplicate_token_returned_after_disabling:
  "fetch (\<lambda>u. HTTPError 401 :: unit http_result) (TokenManager [''a'', ''a''])
       ''11'' ''01001'' (EInt 1) False
     = (Returned [], \<lparr>queue = [''a'', ''a''], errors = [''a'' \<mapsto> 1]\<rparr>,
        [request_url ''11'' ''01001'' (EInt 1) ''a''])
   \<and> fetch (\<lambda>u. HTTPError 401 :: unit http_result)
       \<lparr>queue = [''a'', ''a''], errors = [''a'' \<mapsto> 1]\<rparr> ''11'' ''01001'' (EInt 1) False
     = (Returned [], \<lparr>queue = [''a'', ''a''], errors = [''a'' \<mapsto> 2]\<rparr>,
        [request_url ''11'' ''01001'' (EInt 1) ''a''])
   \<and> fetch (\<lambda>u. HTTPError 401 :: unit http_result)
       \<lparr>queue = [''a'', ''a''], errors = [''a'' \<mapsto> 2]\<rparr> ''11'' ''01001'' (EInt 1) False
     = (Returned [], \<lparr>queue = [''a''], errors = [''a'' \<mapsto> 3]\<rparr>,
        [request_url ''11'' ''01001'' (EInt 1) ''a''])
   \<and> MAX_RETRIES_PER_TOKEN = 3
   \<and> get_token \<lparr>queue = [''a''], errors = [''a'' \<mapsto> 3]\<rparr>
     = Some (''a'', \<lparr>queue = [], errors = [''a'' \<mapsto> 3]\<rparr>)
   \<and> fetch (\<lambda>u. HTTPError 401 :: unit http_result)
       \<lparr>queue = [''a''], errors = [''a'' \<mapsto> 3]\<rparr> ''11'' ''01001'' (EInt 1) False
     = (Returned [], \<lparr>queue = [], errors = [''a'' \<mapsto> 4]\<rparr>,
        [request_url ''11'' ''01001'' (EInt 1) ''a''])
   \<and> run_ops (TokenManager [''a'', ''a''])
        [Get, Release ''a'' False, Get, Release ''a'' False, Get, Release ''a'' False, Get]
     = [Got ''a'' (Some 0), Put ''a'' False (Some 1), Got ''a'' (Some 1), Put ''a'' False (Some 2),
        Got ''a'' (Some 2), Put ''a'' False (Some 3), Got ''a'' (Some 3)]
   \<and> lawful [] [Got ''a'' (Some 0), Put ''a'' False (Some 1), Got ''a'' (Some 1),
        Put ''a'' False (Some 2), Got ''a'' (Some 2), Put ''a'' False (Some 3), Got ''a'' (Some 3)]"
  by (simp add: fetch_def valid_11 valid_01001 valid_1 get_token_def TokenManager_def
      fetch_try_def release_def MAX_RETRIES_PER_TOKEN_def eval_nat_numeral)

text \<open>
  C5: when the activity, the area or the stratum fails its validation, \<^verbatim>\<open>fetch\<close>
  returns the empty list, requests no URL and leaves the token manager as it was (no
  token is borrowed).
\<close>

theorem fetch_rejects_invalid:
  "\<not> validate_actividad a \<or> \<not> validate_area r \<or> \<not> validate_estrato e az \<Longrightarrow>
   fetch session tm a r e az = (Returned [], tm, [])"
  by (auto simp: fetch_def)

theorem fetch_rejects_invalid_witness:
  "\<not> validate_actividad ''7'' \<and> \<not> validate_area ''1001'' \<and> \<not> validate_estrato (EInt 0) False
   \<and> fetch (\<lambda>u. HTTPError 401) (TokenManager [''t1'']) ''7'' ''01001'' (EInt 1) False
       = (Returned [], TokenManager [''t1''], [])
   \<and> fetch (\<lambda>u. HTTPError 401) (TokenManager [''t1'']) ''11'' ''1001'' (EInt 1) False
       = (Returned [], TokenManager [''t1''], [])
   \<and> fetch (\<lambda>u. HTTPError 401) (TokenManager [''t1'']) ''11'' ''01001'' (EInt 0) False
       = (Returned [], TokenManager [''t1''], [])"
proof -
  have a: "\<not> validate_actividad ''7''" by (simp add: validate_actividad_def)
  have r: "\<not> validate_area ''1001''" by (simp add: validate_area_def)
  have e: "\<not> validate_estrato (EInt 0) False"
    by (simp add: validate_estrato_def int_of_estrato_def)
  show ?thesis
    using a r e
      fetch_rejects_invalid [of "''7''" "''01001''" "EInt 1" False "\<lambda>u. HTTPError 401" "TokenManager [''t1'']"]
      fetch_rejects_invalid [of "''11''" "''1001''" "EInt 1" False "\<lambda>u. HTTPError 401" "TokenManager [''t1'']"]
      fetch_rejects_invalid [of "''11''" "''01001''" "EInt 0" False "\<lambda>u. HTTPError 401" "TokenManager [''t1'']"]
    by simp
qed

text \<open>
  C4: in a \<^verbatim>\<open>fetch\<close> that borrows a token and issues its request, the failure count
  of the token goes up by one exactly when the request ends in an HTTPError of status 401
  or 403; after any other HTTP error and after any other exception the failure counts are
  unchanged and the token is back at the end of the queue; whenever no body was parsed the
  result is the empty list.
\<close>

theorem fetch_release_classification:
  assumes "validate_actividad a" "validate_area r" "validate_estrato e az"
    and "get_token tm = Some (token, tm1)"
    and "errors tm token = Some n"
  shows "case fetch session tm a r e az of (res, tm2, urls) \<Rightarrow>
           urls = [request_url a r e token]
           \<and> (errors tm2 token = Some (n + 1)) =
               (\<exists>code. session (request_url a r e token) = HTTPError code \<and> code \<in> {401, 403})
           \<and> ((\<forall>code. session (request_url a r e token) = HTTPError code \<longrightarrow> code \<notin> {401, 403})
                \<longrightarrow> errors tm2 = errors tm \<and> queue tm2 = queue tm1 @ [token])
           \<and> ((\<forall>data. session (request_url a r e token) \<noteq> Body data) \<longrightarrow> res = Returned [])"
proof -
  from assms(4) have e1: "errors tm1 = errors tm" by (simp add: get_token_Some)
  show ?thesis
    using assms e1
    by (cases "session (request_url a r e token)")
      (auto simp: fetch_def fetch_try_def release_def Let_def MAX_RETRIES_PER_TOKEN_def)
qed

theorem fetch_release_classification_witness:
  "validate_actividad ''11'' \<and> validate_area ''01001'' \<and> validate_estrato (EInt 1) False
   \<and> get_token (TokenManager [''t1'']) = Some (''t1'', (TokenManager [''t1''])\<lparr>queue := []\<rparr>)
   \<and> errors (TokenManager [''t1'']) ''t1'' = Some 0
   \<and> (case fetch (\<lambda>u. HTTPError 401 :: unit http_result) (TokenManager [''t1''])
              ''11'' ''01001'' (EInt 1) False of
        (res, tm2, urls) \<Rightarrow>
          res = Returned [] \<and> errors tm2 ''t1'' = Some 1 \<and> queue tm2 = [''t1'']
          \<and> urls = [request_url ''11'' ''01001'' (EInt 1) ''t1''])
   \<and> (case fetch (\<lambda>u. HTTPError 404 :: unit http_result) (TokenManager [''t1''])
              ''11'' ''01001'' (EInt 1) False of
        (res, tm2, urls) \<Rightarrow>
          res = Returned [] \<and> errors tm2 ''t1'' = Some 0 \<and> queue tm2 = [''t1''])"
proof -
  have g: "get_token (TokenManager [''t1'']) = Some (''t1'', (TokenManager [''t1''])\<lparr>queue := []\<rparr>)"
    by (simp add: get_token_def TokenManager_def)
  have e: "errors (TokenManager [''t1'']) ''t1'' = Some 0"
    by (simp add: TokenManager_def)
  have q: "queue ((TokenManager [''t1''])\<lparr>queue := []\<rparr>) = []" by simp
  note t1 = fetch_release_classification [OF valid_11 valid_01001 valid_1 g e,
      of "\<lambda>u. HTTPError 401 :: unit http_result"]
  note t2 = fetch_release_classification [OF valid_11 valid_01001 valid_1 g e,
      of "\<lambda>u. HTTPError 404 :: unit http_result"]
  have c1: "case fetch (\<lambda>u. HTTPError 401 :: unit http_result) (TokenManager [''t1''])
              ''11'' ''01001'' (EInt 1) False of
        (res, tm2, urls) \<Rightarrow>
          res = Returned [] \<and> errors tm2 ''t1'' = Some 1 \<and> queue tm2 = [''t1'']
          \<and> urls = [request_url ''11'' ''01001'' (EInt 1) ''t1'']"
    using t1 by (auto simp: fetch_def valid_11 valid_01001 valid_1 g fetch_try_def release_def e
        MAX_RETRIES_PER_TOKEN_def split: prod.splits)
  have c2: "case fetch (\<lambda>u. HTTPError 404 :: unit http_result) (TokenManager [''t1''])
              ''11'' ''01001'' (EInt 1) False of
        (res, tm2, urls) \<Rightarrow>
          res = Returned [] \<and> errors tm2 ''t1'' = Some 0 \<and> queue tm2 = [''t1'']"
    using t2 e q by (auto split: prod.splits)
  show ?thesis using valid_11 valid_01001 valid_1 g e c1 c2 by blast
qed

section \<open>Quantifying\<close>

lemma falsy_truthy: "falsy fl v = (\<not> truthy fl v)"
  by (cases v) (auto simp: falsy_def truthy_def)

lemma quantify_item_total:
  "(case quantify_item fl tot item of Inl e \<Rightarrow> tot | Inr t \<Rightarrow> t) = tot + record_total fl item"
proof (cases item)
  case (JList xs)
  then show ?thesis
    by (cases "py_int fl (xs ! 2)") (auto simp: quantify_item_def record_total_def coerced_def)
next
  case (JDict d)
  show ?thesis
  proof (cases "map_of d ''Total''")
    case None
    then have g: "dict_get d ''Total'' = JNull" by (simp add: dict_get_def)
    show ?thesis
    proof (cases "map_of d ''total''")
      case N2: None
      with None show ?thesis
        by (simp add: quantify_item_def record_total_def total_field_def JDict dict_get_def
            truthy_def)
    next
      case (Some w)
      with None show ?thesis
        by (cases "py_int fl w"; cases w)
          (auto simp: quantify_item_def record_total_def total_field_def JDict dict_get_def
            truthy_def coerced_def py_int_def)
    qed
  next
    case (Some v)
    then have g: "dict_get d ''Total'' = v" by (simp add: dict_get_def)
    show ?thesis
    proof (cases "truthy fl v")
      case True
      then have nn: "v \<noteq> JNull" by (auto simp: truthy_def)
      from True have nf: "\<not> falsy fl v" by (simp add: falsy_truthy)
      show ?thesis using True nn nf Some g
        by (cases "py_int fl v"; cases v)
          (auto simp: quantify_item_def record_total_def total_field_def JDict Let_def
            coerced_def)
    next
      case False
      then have f: "falsy fl v" by (simp add: falsy_truthy)
      show ?thesis
      proof (cases "map_of d ''total''")
        case None
        with False f Some g show ?thesis
          by (simp add: quantify_item_def record_total_def total_field_def JDict dict_get_def)
      next
        case S2: (Some w)
        with False f Some g show ?thesis
          by (cases "py_int fl w"; cases w)
            (auto simp: quantify_item_def record_total_def total_field_def JDict dict_get_def
              coerced_def py_int_def)
      qed
    qed
  qed
qed (simp_all add: quantify_item_def record_total_def)

lemma quantify_loop_sum:
  "quantify_loop fl tot data = tot + sum_list (map (record_total fl) data)"
proof (induction data arbitrary: tot)
  case Nil
  then show ?case by simp
next
  case (Cons item rest)
  show ?case
    by (simp add: Cons.IH quantify_item_total)
qed

lemma quantify_returns:
  "fetch session tm a r e False = (Returned data, tm', urls) \<Longrightarrow>
   quantify session fl tm a r e = (Returned (quantify_loop fl 0 data), tm', urls)"
  by (simp add: quantify_def)

lemma record_total_dict:
  "record_total fl (JDict d) =
     (if truthy fl (dict_get d ''Total'') then coerced fl (dict_get d ''Total'')
      else coerced fl (dict_get d ''total''))"
proof -
  have n: "coerced fl JNull = 0" by (simp add: coerced_def py_int_def)
  have t: "\<not> truthy fl JNull" by (simp add: truthy_def)
  show ?thesis
    by (cases "map_of d ''Total''"; cases "map_of d ''total''")
      (auto simp: record_total_def total_field_def dict_get_def falsy_truthy n t)
qed

lemma py_int_str_denotes: "(py_int fl (JStr s) = Inr n) = denotes s n"
  by (simp add: py_int_def int_of_str_denotes)

text \<open>
  C6, as amended: \<^verbatim>\<open>quantify\<close> returns the sum, over the records that \<^verbatim>\<open>fetch\<close>
  returned, of the count of each record: the element at position 2 of a list-shaped
  record; for a dictionary-shaped record the field Total or, when Total is absent or
  falsy, the field total, and no other spelling; each value coerced by \<^verbatim>\<open>int\<close> (for a
  string: to the integer it denotes), and a record whose value cannot be coerced counts 0.
  The sum of no record is 0, and the two records of the example give 15.
\<close>

theorem quantify_sum:
  "quantify_loop fl 0 data = sum_list (map (record_total fl) data)
   \<and> (fetch session tm a r e False = (Returned data, tm', urls) \<longrightarrow>
        quantify session fl tm a r e = (Returned (sum_list (map (record_total fl) data)), tm', urls))
   \<and> (py_int fl (JStr s) = Inr n) = denotes s n
   \<and> quantify_loop fl 0 [] = 0
   \<and> quantify_loop fl 0
        [JList [JStr ''A'', JInt 1, JInt 15], JList [JStr ''B'', JInt 2, JStr ''bad'']] = 15"
proof -
  have s: "quantify_loop fl 0 data = sum_list (map (record_total fl) data)"
    by (simp add: quantify_loop_sum)
  have bad: "int_of_str ''bad'' = Inl ValueError"
    by (simp add: int_eval)
  have ex: "quantify_loop fl 0
        [JList [JStr ''A'', JInt 1, JInt 15], JList [JStr ''B'', JInt 2, JStr ''bad'']] = 15"
    by (simp add: quantify_item_def py_int_def bad)
  show ?thesis
    using s ex quantify_returns [of session tm a r e data tm' urls fl] py_int_str_denotes [of fl s n]
    by simp
qed

theorem quantify_sum_witness:
  "fetch (\<lambda>u. Body (JList witness_records)) (TokenManager [''t1'']) ''11'' ''01001'' (EInt 1) False
     = (Returned witness_records, TokenManager [''t1''],
        [request_url ''11'' ''01001'' (EInt 1) ''t1''])
   \<and> quantify (\<lambda>u. Body (JList witness_records)) no_floats (TokenManager [''t1''])
        ''11'' ''01001'' (EInt 1)
     = (Returned 50, TokenManager [''t1''], [request_url ''11'' ''01001'' (EInt 1) ''t1''])
   \<and> map (record_total no_floats) witness_records = [15, 27, 3, 4, 0, 1]
   \<and> denotes '' 4'' 4
   \<and> \<not> denotes [CHR 0x1C, CHR ''5''] 5"
proof -
  have f: "fetch (\<lambda>u. Body (JList witness_records)) (TokenManager [''t1''])
        ''11'' ''01001'' (EInt 1) False
     = (Returned witness_records, TokenManager [''t1''],
        [request_url ''11'' ''01001'' (EInt 1) ''t1''])"
    by (rule fetch_example)
  have i: "int_of_str ''27'' = Inr 27" "int_of_str '' 4'' = Inr 4"
    "int_of_str [CHR 0x1C, CHR ''5''] = Inl ValueError"
    by (simp_all add: int_eval)
  have m: "map (record_total no_floats) witness_records = [15, 27, 3, 4, 0, 1]"
    by (simp add: witness_records_def record_total_def total_field_def falsy_def coerced_def
        py_int_def i)
  have d1: "denotes '' 4'' 4"
    using quantify_sum [of no_floats witness_records _ _ _ _ _ _ _ "'' 4''" 4] i
    by (simp add: py_int_def)
  have d2: "\<not> denotes [CHR 0x1C, CHR ''5''] 5"
    using quantify_sum [of no_floats witness_records _ _ _ _ _ _ _ "[CHR 0x1C, CHR ''5'']" 5] i
    by (simp add: py_int_def)
  have q: "quantify (\<lambda>u. Body (JList witness_records)) no_floats (TokenManager [''t1''])
        ''11'' ''01001'' (EInt 1)
     = (Returned 50, TokenManager [''t1''], [request_url ''11'' ''01001'' (EInt 1) ''t1''])"
    using f m quantify_sum [of no_floats witness_records "\<lambda>u. Body (JList witness_records)"
        "TokenManager [''t1'']" "''11''" "''01001''" "EInt 1" "TokenManager [''t1'']"
        "[request_url ''11'' ''01001'' (EInt 1) ''t1'']"]
    by simp
  from f q m d1 d2 show ?thesis by blast
qed

text \<open>
  C6 as stated fails: the case variants of the field name are not all accepted. A record
  whose count is under TOTAL contributes nothing.
\<close>

theorem quantify_ignores_other_spellings:
  "quantify_loop no_floats 0 [JDict [(''TOTAL'', JInt 5)]] = 0
   \<and> quantify (\<lambda>u. Body (JList [JDict [(''TOTAL'', JInt 5)]])) no_floats (TokenManager [''t1''])
        ''11'' ''01001'' (EInt 1)
     = (Returned 0, TokenManager [''t1''], [request_url ''11'' ''01001'' (EInt 1) ''t1''])"
  by (simp add: quantify_def fetch_example quantify_item_def dict_get_def truthy_def)

text \<open>
  C10: whatever records \<^verbatim>\<open>fetch\<close> returns, \<^verbatim>\<open>quantify\<close> returns an integer. A list
  of fewer than three elements and a dictionary with neither Total nor total leave the
  total as it was without any exception; so does a dictionary whose Total is falsy and
  whose total cannot be coerced.
\<close>

theorem quantify_total_over_shapes:
  "(fetch session tm a r e False = (Returned data, tm', urls) \<longrightarrow>
      (\<exists>n. quantify session fl tm a r e = (Returned n, tm', urls)))
   \<and> (length xs < 3 \<longrightarrow>
        quantify_item fl tot (JList xs) = Inr tot
        \<and> quantify_loop fl tot (JList xs # rest) = quantify_loop fl tot rest)
   \<and> (map_of d ''Total'' = None \<and> map_of d ''total'' = None \<longrightarrow>
        quantify_item fl tot (JDict d) = Inr tot
        \<and> quantify_loop fl tot (JDict d # rest) = quantify_loop fl tot rest)
   \<and> (\<not> truthy fl (dict_get d ''Total'') \<and> (\<forall>n. py_int fl (dict_get d ''total'') \<noteq> Inr n) \<longrightarrow>
        quantify_loop fl tot (JDict d # rest) = quantify_loop fl tot rest)"
proof -
  have a: "fetch session tm a r e False = (Returned data, tm', urls) \<longrightarrow>
      (\<exists>n. quantify session fl tm a r e = (Returned n, tm', urls))"
    by (simp add: quantify_returns)
  have b: "length xs < 3 \<longrightarrow>
        quantify_item fl tot (JList xs) = Inr tot
        \<and> quantify_loop fl tot (JList xs # rest) = quantify_loop fl tot rest"
    by (simp add: quantify_item_def)
  have c: "map_of d ''Total'' = None \<and> map_of d ''total'' = None \<longrightarrow>
        quantify_item fl tot (JDict d) = Inr tot
        \<and> quantify_loop fl tot (JDict d # rest) = quantify_loop fl tot rest"
    by (simp add: quantify_item_def dict_get_def truthy_def)
  have d: "\<not> truthy fl (dict_get d ''Total'') \<and> (\<forall>n. py_int fl (dict_get d ''total'') \<noteq> Inr n) \<longrightarrow>
        quantify_loop fl tot (JDict d # rest) = quantify_loop fl tot rest"
  proof (intro impI, elim conjE)
    assume f: "\<not> truthy fl (dict_get d ''Total'')" and n: "\<forall>n. py_int fl (dict_get d ''total'') \<noteq> Inr n"
    from n have "record_total fl (JDict d) = 0"
      using f by (cases "py_int fl (dict_get d ''total'')") (auto simp: record_total_dict coerced_def)
    then show "quantify_loop fl tot (JDict d # rest) = quantify_loop fl tot rest"
      by (simp add: quantify_item_total)
  qed
  show ?thesis using a b c d by blast
qed

theorem quantify_total_over_shapes_witness:
  "fetch (\<lambda>u. Body (JList [JList [JInt 1, JInt 2], JDict [(''AE'', JStr ''11'')],
                             JDict [(''Total'', JInt 0), (''total'', JNull)], JInt 5]))
      (TokenManager [''t1'']) ''11'' ''01001'' (EInt 1) False
     = (Returned [JList [JInt 1, JInt 2], JDict [(''AE'', JStr ''11'')],
                  JDict [(''Total'', JInt 0), (''total'', JNull)], JInt 5 :: unit json],
        TokenManager [''t1''], [request_url ''11'' ''01001'' (EInt 1) ''t1''])
   \<and> (\<exists>n. quantify (\<lambda>u. Body (JList [JList [JInt 1, JInt 2], JDict [(''AE'', JStr ''11'')],
                             JDict [(''Total'', JInt 0), (''total'', JNull)], JInt 5]))
      no_floats (TokenManager [''t1'']) ''11'' ''01001'' (EInt 1)
     = (Returned n, TokenManager [''t1''], [request_url ''11'' ''01001'' (EInt 1) ''t1'']))
   \<and> length [JInt 1, JInt 2 :: unit json] < 3
   \<and> quantify_item no_floats 7 (JList [JInt 1, JInt 2]) = Inr 7
   \<and> map_of [(''AE'', JStr ''11'' :: unit json)] ''Total'' = None
   \<and> map_of [(''AE'', JStr ''11'' :: unit json)] ''total'' = None
   \<and> quantify_item no_floats 7 (JDict [(''AE'', JStr ''11'')]) = Inr 7
   \<and> quantify_loop no_floats 7 [JDict [(''AE'', JStr ''11'')], JInt 3] = quantify_loop no_floats 7 [JInt 3]"
proof -
  let ?data = "[JList [JInt 1, JInt 2], JDict [(''AE'', JStr ''11'')],
                  JDict [(''Total'', JInt 0), (''total'', JNull)], JInt 5] :: unit json list"
  have f: "fetch (\<lambda>u. Body (JList ?data)) (TokenManager [''t1'']) ''11'' ''01001'' (EInt 1) False
     = (Returned ?data, TokenManager [''t1''], [request_url ''11'' ''01001'' (EInt 1) ''t1''])"
    by (rule fetch_example)
  have l: "length [JInt 1, JInt 2 :: unit json] < 3" by simp
  have m: "map_of [(''AE'', JStr ''11'' :: unit json)] ''Total'' = None
      \<and> map_of [(''AE'', JStr ''11'' :: unit json)] ''total'' = None" by simp
  show ?thesis
    using f l m
      quantify_total_over_shapes [of "\<lambda>u. Body (JList ?data)" "TokenManager [''t1'']"
        "''11''" "''01001''" "EInt 1" ?data "TokenManager [''t1'']"
        "[request_url ''11'' ''01001'' (EInt 1) ''t1'']" no_floats
        "[JInt 1, JInt 2]" 7 "[JInt 3]" "[(''AE'', JStr ''11'')]"]
    by simp
qed


section \<open>Discovery\<close>

lemma valid_0_act: "validate_actividad ''0''" by (simp add: validate_actividad_def)
lemma valid_0_area: "validate_area ''0''" by (simp add: validate_area_def)
lemma valid_0_est: "validate_estrato (EInt 0) True"
  by (simp add: validate_estrato_def int_of_estrato_def)

lemma discovery_fetch:
  "fetch (\<lambda>u. Body (JList xs)) (TokenManager [''t1'']) ''0'' ''0'' (EInt 0) True =
     (Returned xs, TokenManager [''t1''], [request_url ''0'' ''0'' (EInt 0) ''t1''])"
  by (simp add: fetch_def valid_0_act valid_0_area valid_0_est get_token_def TokenManager_def
      fetch_try_def release_def)

lemma discovery_blocks:
  "fetch session (TokenManager []) ''0'' ''0'' (EInt 0) True = (Blocked, TokenManager [], [])"
  by (simp add: fetch_def valid_0_act valid_0_area valid_0_est get_token_def TokenManager_def)

lemma sorted_plus7: "sorted_by_int (fromkeys [''23'', ''+7'']) = Inr [''+7'', ''23'']"
  by code_simp

lemma sorted_SC: "sorted_by_int (fromkeys [''SC'', ''23'']) = Inl ValueError"
  by code_simp

lemma sorted_example: "sorted_by_int (fromkeys [''23'', ''07'', ''07'']) = Inr [''07'', ''23'']"
  by code_simp

lemma discovery_example:
  "get_activities
      (\<lambda>u. Body (JList [JList [JStr ''23''], JList [JStr ''07''], JList [JStr ''07''],
                         JList [JStr ''9'']]))
      fl fromkeys (TokenManager [''t1'']) ''0''
   = (Returned [''07'', ''23''], TokenManager [''t1''], [request_url ''0'' ''0'' (EInt 0) ''t1''])"
  by (simp add: get_activities_def strip_zero discovery_fetch List.map_filter_def extract_id_def
      py_str_def sorted_example Let_def)

text \<open>
  C7: in discovery mode the identifiers kept are those of length 2, whether they are digits
  or not, and they are then sorted with \<^verbatim>\<open>int\<close> as the key. An identifier such as
  \<^verbatim>\<open>+7\<close> is returned as a sector, and one such as \<^verbatim>\<open>SC\<close> makes the sort raise
  ValueError, which nothing catches.
\<close>

theorem discovery_keeps_non_digit_ids:
  "get_activities
      (\<lambda>u. Body (JList [JDict [(''AE'', JStr ''23''), (''Total'', JStr ''10'')],
                         JDict [(''AE'', JStr ''+7''), (''Total'', JStr ''4'')]]))
      fl fromkeys (TokenManager [''t1'']) ''0''
     = (Returned [''+7'', ''23''], TokenManager [''t1''], [request_url ''0'' ''0'' (EInt 0) ''t1''])
   \<and> \<not> isdigit ''+7''
   \<and> get_activities
      (\<lambda>u. Body (JList [JDict [(''AE'', JStr ''SC''), (''Total'', JStr ''10'')],
                         JDict [(''AE'', JStr ''23''), (''Total'', JStr ''4'')]]))
      fl fromkeys (TokenManager [''t1'']) ''0''
     = (Raised ValueError, TokenManager [''t1''], [request_url ''0'' ''0'' (EInt 0) ''t1''])"
  by (simp add: get_activities_def strip_zero discovery_fetch List.map_filter_def extract_id_def
      py_str_def sorted_plus7 sorted_SC id_keys_def dict_get_def isdigit_def is_digit_def Let_def)

section \<open>The script\<close>

lemma default_tokens_empty:
  "filter (\<lambda>t. t \<noteq> []) (map strip (split_on CHR '','' (arg_tokens default_args))) = []"
  by (simp add: default_args_def DEFAULT_TOKENS_def strip_def)

lemma strip_11: "strip ''11'' = ''11''"
  by (simp add: strip_def is_space_def)

lemma strip_01001: "strip ''01001'' = ''01001''"
  by (simp add: strip_def is_space_def)

lemma default_strata:
  "List.map_filter
     (\<lambda>e. if validate_estrato (EStr e) False
           then (case int_of_str e of Inl err \<Rightarrow> None | Inr n \<Rightarrow> Some n)
           else None)
     (split_on CHR '','' (arg_estratos default_args)) = ESTRATOS_FIJOS"
  by code_simp

lemma pad_01001: "pad_areas [''01001''] = [''01001'']"
  by code_simp

text \<open>
  C3: with no token (the default value of the option, or an empty one) the script does not
  exit: the discovery request waits for ever for a token, before any URL is requested.
  With an explicit list of activities it reaches \<^verbatim>\<open>generate_csv\<close> with an empty token
  queue.
\<close>

theorem main_hangs_without_tokens:
  "main session fl iter_set files default_args = (Hangs, [])
   \<and> arg_tokens default_args = '',,''
   \<and> main session fl iter_set files (default_args\<lparr>arg_tokens := []\<rparr>) = (Hangs, [])
   \<and> main session fl iter_set files
        (default_args\<lparr>arg_tokens := [], arg_ramos := ''11'', arg_area := ''01001''\<rparr>)
      = (CallsGenerateCsv (TokenManager []) [''11''] ESTRATOS_FIJOS [''01001'']
           ''denue_municipal.csv'' 50, [])"
proof -
  have r: "arg_ramos default_args = ''0''" by (simp add: default_args_def)
  have a: "main session fl iter_set files default_args = (Hangs, [])"
    by (simp add: main_def default_tokens_empty get_activities_def r strip_zero discovery_blocks Let_def)
  have t: "arg_tokens default_args = '',,''"
    by (simp add: default_args_def DEFAULT_TOKENS_def)
  have b: "main session fl iter_set files (default_args\<lparr>arg_tokens := []\<rparr>) = (Hangs, [])"
    by (simp add: main_def get_activities_def default_args_def strip_zero discovery_blocks Let_def)
      (simp add: strip_def)
  have c: "main session fl iter_set files
        (default_args\<lparr>arg_tokens := [], arg_ramos := ''11'', arg_area := ''01001''\<rparr>)
      = (CallsGenerateCsv (TokenManager []) [''11''] ESTRATOS_FIJOS [''01001'']
           ''denue_municipal.csv'' 50, [])"
    by (simp add: main_def get_activities_def strip_11 strip_01001 valid_11 default_strata
        pad_01001 endswith_def lower_def ESTRATOS_FIJOS_def)
      (simp add: default_args_def DEFAULT_WORKERS_def strip_def)
  show ?thesis using a t b c by simp
qed


section \<open>The worker pool\<close>

text \<open>
  The steps of a worker are the pieces of \<^verbatim>\<open>quantify\<close>: run alone on a token manager,
  they give what \<^verbatim>\<open>quantify\<close> returns.
\<close>

lemma worker_rejects:
  "\<not> valid_task (ramo, estrato, area) \<Longrightarrow>
   quantify session fl tm ramo area (EInt estrato) = (Returned (quantify_loop fl 0 []), tm, [])"
  by (auto simp: quantify_def fetch_def valid_task_def)

lemma worker_waits:
  "valid_task (ramo, estrato, area) \<Longrightarrow> get_token tm = None \<Longrightarrow>
   quantify session fl tm ramo area (EInt estrato) = (Blocked, tm, [])"
  by (simp add: quantify_def fetch_def valid_task_def)

lemma worker_borrows_and_responds:
  "valid_task (ramo, estrato, area) \<Longrightarrow> get_token tm = Some (tok, tm1) \<Longrightarrow>
   fetch_try (session (request_url ramo area (EInt estrato) tok)) tm1 tok = (res, tm2) \<Longrightarrow>
   quantify session fl tm ramo area (EInt estrato)
     = (map_result (quantify_loop fl 0) res, tm2, [request_url ramo area (EInt estrato) tok])"
  by (cases res) (simp_all add: quantify_def fetch_def valid_task_def)

lemma length_tasks_of:
  "length (tasks_of ramos estratos areas) = length ramos * length areas * length estratos"
proof -
  have inner: "length (concat (map (\<lambda>area. map (\<lambda>estrato. (ramo, estrato, area)) estratos) areas))
      = length areas * length estratos" for ramo :: string
    by (induction areas) simp_all
  show ?thesis
    unfolding tasks_of_def by (induction ramos) (simp_all add: inner add_mult_distrib)
qed

lemma mset_drop_nth:
  assumes "i < length xs"
  shows "mset xs = add_mset (xs ! i) (mset (drop_nth i xs))"
proof -
  from assms have "xs = take i xs @ xs ! i # drop (Suc i) xs" by (rule id_take_nth_drop)
  then have "mset xs = mset (take i xs @ xs ! i # drop (Suc i) xs)" by simp
  then show ?thesis by (simp add: drop_nth_def)
qed

lemma mset_map_drop_nth:
  assumes "i < length xs"
  shows "mset (map f xs) = add_mset (f (xs ! i)) (mset (map f (drop_nth i xs)))"
proof -
  from assms have i: "i < length (map f xs)" by simp
  have d: "drop_nth i (map f xs) = map f (drop_nth i xs)"
    by (simp add: drop_nth_def take_map drop_map)
  from mset_drop_nth [OF i] assms show ?thesis by (simp add: d)
qed

lemma map_fst_update:
  "i < length xs \<Longrightarrow> xs ! i = (t, a) \<Longrightarrow> map fst (xs[i := (t, b)]) = map fst xs"
  by (simp add: map_update list_update_same_conv)

lemma pool_step_accounted: "pool_step fl mw s s' \<Longrightarrow> accounted s' = accounted s"
proof (induction rule: pool_step.induct)
  case (submit s t ts)
  then show ?case by (simp add: accounted_def)
next
  case (start s t ps)
  then show ?case by (simp add: accounted_def)
next
  case (reject i s t)
  from mset_map_drop_nth [OF reject(1), of fst] reject(2)
  have "mset (map fst (running s)) = add_mset t (mset (map fst (drop_nth i (running s))))"
    by simp
  then show ?case by (simp add: accounted_def)
next
  case (borrow i s t tok tm')
  then show ?case by (simp add: accounted_def map_fst_update)
next
  case (respond i s t tok r res tm')
  from mset_map_drop_nth [OF respond(1), of fst] respond(2)
  have "mset (map fst (running s)) = add_mset t (mset (map fst (drop_nth i (running s))))"
    by simp
  then show ?case by (simp add: accounted_def)
next
  case (write_row s i ramo estrato area tot)
  from mset_map_drop_nth [OF write_row(3), of fst] write_row(4)
  have "mset (map fst (finished s))
      = add_mset (ramo, estrato, area) (mset (map fst (drop_nth i (finished s))))"
    by simp
  then show ?case by (simp add: accounted_def row_task_def)
next
  case (result_raises s i t e)
  then show ?case by (simp add: accounted_def)
qed

lemma pool_steps_accounted:
  "(pool_step fl mw)\<^sup>*\<^sup>* s s' \<Longrightarrow> accounted s' = accounted s"
  by (induction rule: rtranclp_induct) (simp_all add: pool_step_accounted)

lemma accounted_init:
  "accounted (generate_csv_init tm ramos estratos areas) = mset (tasks_of ramos estratos areas)"
  by (simp add: accounted_def generate_csv_init_def)

lemma rows_subset_accounted: "mset (map row_task (rows s)) \<subseteq># accounted s"
  by (simp add: accounted_def)

lemma completed_accounted: "completed s \<Longrightarrow> accounted s = mset (map row_task (rows s))"
  by (simp add: accounted_def completed_def)

lemma valid_task_example: "valid_task (''11'', 1, ''01001'')"
  by (simp add: valid_task_def validate_actividad_def validate_area_def validate_estrato_def
      int_of_estrato_def isdigit_def is_digit_def)

lemma tasks_of_example: "tasks_of [''11''] [1] [''01001''] = [(''11'', 1, ''01001'')]"
  by (simp add: tasks_of_def)

text \<open>The function of the choices takes the steps of the relation, and all of them.\<close>

lemma apply_choice_sound:
  "apply_choice fl mw s c = Some s' \<Longrightarrow> pool_step fl mw s s'"
proof (cases c)
  case Submit
  assume a: "apply_choice fl mw s c = Some s'"
  with Submit show ?thesis
    by (auto simp: apply_choice_def split: list.splits intro: pool_step.submit)
next
  case Start
  assume a: "apply_choice fl mw s c = Some s'"
  with Start show ?thesis
    by (auto simp: apply_choice_def split: list.splits if_splits intro: pool_step.start)
next
  case (Reject i)
  assume a: "apply_choice fl mw s c = Some s'"
  with Reject show ?thesis
    by (auto simp: apply_choice_def split: if_splits prod.splits option.splits
        dest: pool_step.reject [where fl = fl and max_workers = mw])
next
  case (Borrow i)
  assume a: "apply_choice fl mw s c = Some s'"
  with Borrow show ?thesis
    by (auto simp: apply_choice_def split: if_splits prod.splits option.splits
        intro: pool_step.borrow)
next
  case (Respond i r)
  assume a: "apply_choice fl mw s c = Some s'"
  with Respond show ?thesis
    by (auto simp: apply_choice_def split: if_splits prod.splits option.splits
        intro: pool_step.respond)
next
  case (WriteRow i)
  assume a: "apply_choice fl mw s c = Some s'"
  with WriteRow show ?thesis
    by (auto simp: apply_choice_def split: if_splits prod.splits result.splits
        intro: pool_step.write_row)
next
  case (ResultRaises i)
  assume a: "apply_choice fl mw s c = Some s'"
  with ResultRaises show ?thesis
    by (auto simp: apply_choice_def split: if_splits prod.splits result.splits
        intro: pool_step.result_raises)
qed

lemma apply_choice_complete:
  "pool_step fl mw s s' \<Longrightarrow> \<exists>c. apply_choice fl mw s c = Some s'"
proof (induction rule: pool_step.induct)
  case (submit s t ts)
  then have "apply_choice fl mw s Submit = Some (s\<lparr>to_submit := ts, pending := pending s @ [t]\<rparr>)"
    by (simp add: apply_choice_def)
  then show ?case by blast
next
  case (start s t ps)
  then have "apply_choice fl mw s Start = Some (s\<lparr>pending := ps, running := running s @ [(t, None)]\<rparr>)"
    by (simp add: apply_choice_def)
  then show ?case by blast
next
  case (reject i s t)
  then have "apply_choice fl mw s (Reject i) = Some (s\<lparr>running := drop_nth i (running s),
            finished := finished s @ [(t, Returned (quantify_loop fl 0 []))]\<rparr>)"
    by (simp add: apply_choice_def)
  then show ?case by blast
next
  case (borrow i s t tok tm')
  then have "apply_choice fl mw s (Borrow i)
      = Some (s\<lparr>running := (running s)[i := (t, Some tok)], token_mgr := tm'\<rparr>)"
    by (simp add: apply_choice_def)
  then show ?case by blast
next
  case (respond i s t tok r res tm')
  then have "apply_choice fl mw s (Respond i r)
      = Some (s\<lparr>running := drop_nth i (running s),
            finished := finished s @ [(t, map_result (quantify_loop fl 0) res)],
            token_mgr := tm'\<rparr>)"
    by (simp add: apply_choice_def)
  then show ?case by blast
next
  case (write_row s i ramo estrato area tot)
  then have "apply_choice fl mw s (WriteRow i)
      = Some (s\<lparr>finished := drop_nth i (finished s),
            rows := rows s @ [(ramo, estrato, tot, area)]\<rparr>)"
    by (simp add: apply_choice_def)
  then show ?case by blast
next
  case (result_raises s i t e)
  then have "apply_choice fl mw s (ResultRaises i) = Some (s\<lparr>raised := Some e\<rparr>)"
    by (simp add: apply_choice_def)
  then show ?case by blast
qed

lemma run_choices_sound:
  "run_choices fl mw s cs = Some s' \<Longrightarrow> ((pool_step fl mw) ^^ length cs) s s'"
proof (induction cs arbitrary: s)
  case Nil
  then show ?case by simp
next
  case (Cons c cs)
  from Cons.prems obtain s1 where a: "apply_choice fl mw s c = Some s1"
    and r: "run_choices fl mw s1 cs = Some s'"
    by (auto split: option.splits)
  from apply_choice_sound [OF a] Cons.IH [OF r]
  have "((pool_step fl mw) ^^ Suc (length cs)) s s'" by (rule relpowp_Suc_I2)
  then show ?case by simp
qed

text \<open>Every step brings the bound down, so that no run is longer than the first bound.\<close>

lemma sum_list_drop_nth:
  assumes "i < length xs"
  shows "sum_list (map f xs) = f (xs ! i) + sum_list (map (f :: 'a \<Rightarrow> nat) (drop_nth i xs))"
proof -
  from assms have "xs = take i xs @ xs ! i # drop (Suc i) xs" by (rule id_take_nth_drop)
  then have "sum_list (map f xs) = sum_list (map f (take i xs @ xs ! i # drop (Suc i) xs))"
    by simp
  then show ?thesis by (simp add: drop_nth_def)
qed

lemma sum_list_map_update:
  assumes "i < length xs"
  shows "sum_list (map f (xs[i := y])) + f (xs ! i) = sum_list (map (f :: 'a \<Rightarrow> nat) xs) + f y"
proof -
  from assms have x: "xs = take i xs @ xs ! i # drop (Suc i) xs" by (rule id_take_nth_drop)
  from assms have u: "xs[i := y] = take i xs @ y # drop (Suc i) xs" by (rule upd_conv_take_nth_drop)
  have "sum_list (map f xs) = sum_list (map f (take i xs @ xs ! i # drop (Suc i) xs))"
    using x by simp
  then show ?thesis by (simp add: u)
qed

lemma pool_step_work_left: "pool_step fl mw s s' \<Longrightarrow> work_left s' < work_left s"
proof (induction rule: pool_step.induct)
  case (submit s t ts)
  then show ?case by (simp add: work_left_def)
next
  case (start s t ps)
  then show ?case by (simp add: work_left_def worker_cost_def)
next
  case (reject i s t)
  from sum_list_drop_nth [OF reject(1), of "\<lambda>w. worker_cost (snd w)"] reject(2)
  have "sum_list (map (\<lambda>w. worker_cost (snd w)) (running s))
      = 3 + sum_list (map (\<lambda>w. worker_cost (snd w)) (drop_nth i (running s)))"
    by (simp add: worker_cost_def)
  then show ?case by (simp add: work_left_def)
next
  case (borrow i s t tok tm')
  from sum_list_map_update [OF borrow(1), of "\<lambda>w. worker_cost (snd w)" "(t, Some tok)"] borrow(2)
  have "sum_list (map (\<lambda>w. worker_cost (snd w)) ((running s)[i := (t, Some tok)])) + 3
      = sum_list (map (\<lambda>w. worker_cost (snd w)) (running s)) + 2"
    by (simp add: worker_cost_def)
  then show ?case by (simp add: work_left_def)
next
  case (respond i s t tok r res tm')
  from sum_list_drop_nth [OF respond(1), of "\<lambda>w. worker_cost (snd w)"] respond(2)
  have "sum_list (map (\<lambda>w. worker_cost (snd w)) (running s))
      = 2 + sum_list (map (\<lambda>w. worker_cost (snd w)) (drop_nth i (running s)))"
    by (simp add: worker_cost_def)
  then show ?case by (simp add: work_left_def)
next
  case (write_row s i ramo estrato area tot)
  then have "length (drop_nth i (finished s)) < length (finished s)"
    by (simp add: drop_nth_def)
  then show ?case by (simp add: work_left_def)
next
  case (result_raises s i t e)
  then show ?case by (simp add: work_left_def)
qed

lemma pool_run_work_left:
  "((pool_step fl mw) ^^ n) s s' \<Longrightarrow> n + work_left s' \<le> work_left s"
proof (induction n arbitrary: s')
  case 0
  then show ?case by simp
next
  case (Suc n)
  from Suc.prems obtain s1 where a: "((pool_step fl mw) ^^ n) s s1" and b: "pool_step fl mw s1 s'"
    by auto
  from Suc.IH [OF a] pool_step_work_left [OF b] show ?case by simp
qed

lemma work_left_init:
  "work_left (generate_csv_init tm ramos estratos areas)
     = 5 * (length ramos * length areas * length estratos) + 1"
  by (simp add: work_left_def generate_csv_init_def length_tasks_of)

lemma fetch_try_ok:
  assumes "errors tm tok = Some k" "fetch_try r tm tok = (res, tm')"
  shows "(\<exists>data. res = Returned data)
         \<and> set (queue tm') \<subseteq> insert tok (set (queue tm))
         \<and> (\<forall>t. errors tm t \<noteq> None \<longrightarrow> errors tm' t \<noteq> None)"
  using assms
  by (cases r) (auto simp: fetch_try_def release_def Let_def split: if_splits)

lemma pool_ok_init: "pool_ok (generate_csv_init (TokenManager tokens) ramos estratos areas)"
  by (auto simp: pool_ok_def generate_csv_init_def TokenManager_def map_of_eq_None_iff image_iff)

lemma in_set_drop_nth: "x \<in> set (drop_nth i xs) \<Longrightarrow> x \<in> set xs"
  by (auto simp: drop_nth_def dest: in_set_takeD in_set_dropD)

lemma pool_ok_held:
  "pool_ok s \<Longrightarrow> w \<in> set (running s) \<Longrightarrow> snd w = Some tok \<Longrightarrow>
   errors (token_mgr s) tok \<noteq> None"
  unfolding pool_ok_def by blast

lemma pool_ok_finished:
  "pool_ok s \<Longrightarrow> p \<in> set (finished s) \<Longrightarrow> \<exists>n. snd p = Returned n"
  unfolding pool_ok_def by blast

lemma pool_step_ok: "pool_step fl mw s s' \<Longrightarrow> pool_ok s \<Longrightarrow> pool_ok s'"
proof (induction rule: pool_step.induct)
  case (submit s t ts)
  then show ?case by (simp add: pool_ok_def)
next
  case (start s t ps)
  then show ?case by (auto simp: pool_ok_def)
next
  case (reject i s t)
  then show ?case by (auto simp: pool_ok_def dest: in_set_drop_nth)
next
  case (borrow i s t tok tm')
  from borrow(4) have q: "queue (token_mgr s) = tok # queue tm'" and e: "errors tm' = errors (token_mgr s)"
    by (auto simp: get_token_def split: list.splits)
  from borrow(5) q have k: "errors (token_mgr s) tok \<noteq> None" by (simp add: pool_ok_def)
  have up: "\<And>w. w \<in> set ((running s)[i := (t, Some tok)]) \<Longrightarrow> w = (t, Some tok) \<or> w \<in> set (running s)"
    using set_update_subset_insert [of "running s" i "(t, Some tok)"] by auto
  show ?case
    unfolding pool_ok_def
  proof (intro conjI ballI allI impI)
    show "raised (s\<lparr>running := (running s)[i := (t, Some tok)], token_mgr := tm'\<rparr>) = None"
      using borrow(5) by (simp add: pool_ok_def)
  next
    fix p assume "p \<in> set (finished (s\<lparr>running := (running s)[i := (t, Some tok)], token_mgr := tm'\<rparr>))"
    then show "\<exists>n. snd p = Returned n" using borrow(5) by (simp add: pool_ok_def)
  next
    fix tk assume "tk \<in> set (queue (token_mgr (s\<lparr>running := (running s)[i := (t, Some tok)], token_mgr := tm'\<rparr>)))"
    then have "tk \<in> set (queue (token_mgr s))" using q by simp
    then show "errors (token_mgr (s\<lparr>running := (running s)[i := (t, Some tok)], token_mgr := tm'\<rparr>)) tk \<noteq> None"
      using borrow(5) e by (simp add: pool_ok_def)
  next
    fix w tk
    assume w: "w \<in> set (running (s\<lparr>running := (running s)[i := (t, Some tok)], token_mgr := tm'\<rparr>))"
      and h: "snd w = Some tk"
    from w have "w = (t, Some tok) \<or> w \<in> set (running s)" using up by simp
    then have "errors (token_mgr s) tk \<noteq> None"
    proof
      assume "w = (t, Some tok)"
      with h k show ?thesis by simp
    next
      assume "w \<in> set (running s)"
      from pool_ok_held [OF borrow(5) this h] show ?thesis .
    qed
    then show "errors (token_mgr (s\<lparr>running := (running s)[i := (t, Some tok)], token_mgr := tm'\<rparr>)) tk \<noteq> None"
      using e by simp
  qed
next
  case (respond i s t tok r res tm')
  from respond(1,2) have "(t, Some tok) \<in> set (running s)" by (metis nth_mem)
  from pool_ok_held [OF respond(4) this] obtain k where k: "errors (token_mgr s) tok = Some k"
    by auto
  note f = fetch_try_ok [OF k respond(3)]
  from f obtain data where d: "res = Returned data" by blast
  from f have q: "set (queue tm') \<subseteq> insert tok (set (queue (token_mgr s)))" by blast
  from f have e: "\<And>t. errors (token_mgr s) t \<noteq> None \<Longrightarrow> errors tm' t \<noteq> None" by blast
  from k e have ktok: "errors tm' tok \<noteq> None" by auto
  show ?case
    unfolding pool_ok_def
  proof (intro conjI ballI allI impI)
    show "raised (s\<lparr>running := drop_nth i (running s),
            finished := finished s @ [(t, map_result (quantify_loop fl 0) res)],
            token_mgr := tm'\<rparr>) = None"
      using respond(4) by (simp add: pool_ok_def)
  next
    fix p assume "p \<in> set (finished (s\<lparr>running := drop_nth i (running s),
            finished := finished s @ [(t, map_result (quantify_loop fl 0) res)],
            token_mgr := tm'\<rparr>))"
    then show "\<exists>n. snd p = Returned n"
      using respond(4) d by (auto simp: pool_ok_def)
  next
    fix tk assume "tk \<in> set (queue (token_mgr (s\<lparr>running := drop_nth i (running s),
            finished := finished s @ [(t, map_result (quantify_loop fl 0) res)],
            token_mgr := tm'\<rparr>)))"
    then have "tk = tok \<or> tk \<in> set (queue (token_mgr s))" using q by auto
    then show "errors (token_mgr (s\<lparr>running := drop_nth i (running s),
            finished := finished s @ [(t, map_result (quantify_loop fl 0) res)],
            token_mgr := tm'\<rparr>)) tk \<noteq> None"
      using ktok e respond(4) by (auto simp: pool_ok_def)
  next
    fix w tk
    assume w: "w \<in> set (running (s\<lparr>running := drop_nth i (running s),
            finished := finished s @ [(t, map_result (quantify_loop fl 0) res)],
            token_mgr := tm'\<rparr>))" and h: "snd w = Some tk"
    from w have "w \<in> set (running s)" by (auto dest: in_set_drop_nth)
    from pool_ok_held [OF respond(4) this h] have "errors (token_mgr s) tk \<noteq> None" .
    then show "errors (token_mgr (s\<lparr>running := drop_nth i (running s),
            finished := finished s @ [(t, map_result (quantify_loop fl 0) res)],
            token_mgr := tm'\<rparr>)) tk \<noteq> None"
      using e by simp
  qed
next
  case (write_row s i ramo estrato area tot)
  then show ?case by (auto simp: pool_ok_def dest: in_set_drop_nth)
next
  case (result_raises s i t e)
  from result_raises(3,4) have "(t, Raised e) \<in> set (finished s)" by (metis nth_mem)
  from pool_ok_finished [OF result_raises(5) this] show ?case by simp
qed

lemma pool_run_ok: "((pool_step fl mw) ^^ n) s s' \<Longrightarrow> pool_ok s \<Longrightarrow> pool_ok s'"
proof (induction n arbitrary: s')
  case 0
  then show ?case by simp
next
  case (Suc n)
  from Suc.prems(1) obtain s1 where a: "((pool_step fl mw) ^^ n) s s1" and b: "pool_step fl mw s1 s'"
    by auto
  from pool_step_ok [OF b Suc.IH [OF a Suc.prems(2)]] show ?case .
qed

lemma pool_progress:
  fixes fl :: "'f float_ops"
  assumes ok: "pool_ok s" and mw: "1 \<le> mw" and nc: "\<not> completed s" and ht: "has_token s"
  shows "\<exists>s'. pool_step fl mw s s'"
proof -
  from ok have r: "raised s = None" by (simp add: pool_ok_def)
  show ?thesis
  proof (cases "to_submit s")
    case (Cons t ts)
    from pool_step.submit [OF Cons] show ?thesis by blast
  next
    case Nil
    note sub = Nil
    show ?thesis
    proof (cases "finished s")
      case (Cons p ps)
      then have i: "0 < length (finished s)" and m: "p \<in> set (finished s)" by simp_all
      from pool_ok_finished [OF ok m] obtain n where n: "snd p = Returned n" by blast
      obtain ramo estrato area where t: "fst p = (ramo, estrato, area)" by (cases "fst p")
      from Cons n t have "finished s ! 0 = ((ramo, estrato, area), Returned n)"
        by (cases p) simp
      from pool_step.write_row [OF sub r i this] show ?thesis by blast
    next
      case Nil
      note fin = Nil
      show ?thesis
      proof (cases "running s")
        case Nil
        with sub fin r nc obtain t ps where p: "pending s = t # ps"
          by (cases "pending s") (auto simp: completed_def)
        from Nil mw have "int (length (running s)) < mw" by simp
        from pool_step.start [OF p this] show ?thesis by blast
      next
        case (Cons w ws)
        show ?thesis
        proof (cases "\<exists>w \<in> set (running s). snd w \<noteq> None")
          case True
          then obtain i where i: "i < length (running s)" and h: "snd (running s ! i) \<noteq> None"
            by (auto simp: in_set_conv_nth)
          then obtain t tok where w: "running s ! i = (t, Some tok)"
            by (cases "running s ! i") auto
          obtain res :: "'f json list result" and tm'
            where f: "fetch_try NetworkError (token_mgr s) tok = (res, tm')"
            by (cases "fetch_try (NetworkError :: 'f http_result) (token_mgr s) tok") blast
          from pool_step.respond [OF i w f] show ?thesis by blast
        next
          case False
          with ht have q: "queue (token_mgr s) \<noteq> []" by (simp add: has_token_def)
          from Cons have i: "0 < length (running s)" by simp
          from False Cons obtain t where w: "running s ! 0 = (t, None)"
            by (cases w) auto
          show ?thesis
          proof (cases "valid_task t")
            case True
            from q obtain tok tm' where g: "get_token (token_mgr s) = Some (tok, tm')"
              by (cases "queue (token_mgr s)") (simp_all add: get_token_def)
            from pool_step.borrow [OF i w True g] show ?thesis by blast
          next
            case False
            from pool_step.reject [OF i w False] show ?thesis by blast
          qed
        qed
      qed
    qed
  qed
qed

lemma relpowp_rtranclp: "(r ^^ n) x y \<Longrightarrow> r\<^sup>*\<^sup>* x y"
  by (induction n arbitrary: y) (auto intro: rtranclp.rtrancl_into_rtrancl)


lemmas pool_eval =
  apply_choice_def generate_csv_init_def tasks_of_def TokenManager_def get_token_def
  fetch_try_def release_def drop_nth_def valid_task_def validate_actividad_def
  validate_area_def validate_estrato_def int_of_estrato_def isdigit_def is_digit_def
  quantify_item_def py_int_def MAX_RETRIES_PER_TOKEN_def Let_def

lemma example_mid_run:
  "run_choices no_floats 2 example_init (take 8 example_schedule) = Some example_mid"
  by (simp add: example_schedule_def example_init_def example_mid_def pool_eval)

lemma example_final_run:
  "run_choices no_floats 2 example_init example_schedule = Some example_final"
  by (simp add: example_schedule_def example_init_def example_final_def pool_eval)

text \<open>
  C1, as amended: for every number of workers from 1 up and every list of tokens, a run
  of \<^verbatim>\<open>generate_csv\<close> has at most 5 steps for every element of the product of the
  activities, the areas and the strata, and one more; at every moment the data rows
  written are rows of distinct elements of the product (no combination is written twice);
  as long as a token is in the queue or borrowed by a worker and \<^verbatim>\<open>generate_csv\<close>
  has not returned, some thread can take a step; and when \<^verbatim>\<open>generate_csv\<close> returns,
  it has written exactly one data row for every element of the product, so that their
  number is the product of the three lengths.
\<close>

theorem generate_csv_rows:
  assumes "1 \<le> max_workers"
    and "((pool_step fl max_workers) ^^ n)
           (generate_csv_init (TokenManager tokens) ramos estratos areas) s"
  shows "generate_csv_start (TokenManager tokens) ramos estratos areas max_workers
           = Inr (generate_csv_init (TokenManager tokens) ramos estratos areas)
         \<and> n \<le> 5 * (length ramos * length areas * length estratos) + 1
         \<and> mset (map row_task (rows s)) \<subseteq># mset (tasks_of ramos estratos areas)
         \<and> (has_token s \<and> \<not> completed s \<longrightarrow> (\<exists>s'. pool_step fl max_workers s s'))
         \<and> (completed s \<longrightarrow>
              mset (map row_task (rows s)) = mset (tasks_of ramos estratos areas)
              \<and> length (rows s) = length ramos * length areas * length estratos)"
proof -
  let ?s0 = "generate_csv_init (TokenManager tokens) ramos estratos areas"
  from assms(1) have st: "generate_csv_start (TokenManager tokens) ramos estratos areas max_workers
           = Inr ?s0"
    by (simp add: generate_csv_start_def)
  from pool_run_work_left [OF assms(2)]
  have bound: "n \<le> 5 * (length ramos * length areas * length estratos) + 1"
    by (simp add: work_left_init)
  from pool_steps_accounted [OF relpowp_rtranclp [OF assms(2)]]
  have acc: "accounted s = mset (tasks_of ramos estratos areas)"
    by (simp add: accounted_init)
  from rows_subset_accounted [of s] acc
  have sub: "mset (map row_task (rows s)) \<subseteq># mset (tasks_of ramos estratos areas)" by simp
  from pool_run_ok [OF assms(2) pool_ok_init] have ok: "pool_ok s" .
  have prog: "\<exists>s'. pool_step fl max_workers s s'" if "has_token s" "\<not> completed s"
    using pool_progress [OF ok assms(1) that(2) that(1)] .
  have fin: "mset (map row_task (rows s)) = mset (tasks_of ramos estratos areas)
      \<and> length (rows s) = length ramos * length areas * length estratos" if c: "completed s"
  proof -
    from completed_accounted [OF c] acc
    have m: "mset (map row_task (rows s)) = mset (tasks_of ramos estratos areas)" by simp
    then have "size (mset (map row_task (rows s))) = size (mset (tasks_of ramos estratos areas))"
      by simp
    then have "length (rows s) = length (tasks_of ramos estratos areas)" by simp
    with m show ?thesis by (simp add: length_tasks_of)
  qed
  from st bound sub prog fin show ?thesis by blast
qed

theorem generate_csv_rows_witness:
  "(1 :: int) \<le> 2
   \<and> ((pool_step no_floats 2) ^^ 8) example_init example_mid
   \<and> has_token example_mid \<and> \<not> completed example_mid
   \<and> (\<exists>s'. pool_step no_floats 2 example_mid s')
   \<and> ((pool_step no_floats 2) ^^ 18) example_init example_final
   \<and> completed example_final
   \<and> generate_csv_start (TokenManager [''t1'', ''t2'']) [''11'', ''7''] [1, 2] [''01001''] 2
       = Inr example_init
   \<and> (18 :: nat) \<le> 5 * (length [''11'', ''7''] * length [''01001''] * length [1 :: int, 2]) + 1
   \<and> rows example_final
       = [(''11'', 1, 0, ''01001''), (''11'', 2, 15, ''01001''),
          (''7'', 2, 0, ''01001''), (''7'', 1, 0, ''01001'')]
   \<and> mset (map row_task (rows example_final))
       = mset (tasks_of [''11'', ''7''] [1, 2] [''01001''])
   \<and> length (rows example_final) = length [''11'', ''7''] * length [''01001''] * length [1 :: int, 2]"
proof -
  have one: "(1 :: int) \<le> 2" by simp
  have l8: "length (take 8 example_schedule) = 8"
    by (simp add: example_schedule_def)
  have l18: "length example_schedule = 18"
    by (simp add: example_schedule_def)
  from run_choices_sound [OF example_mid_run]
  have a: "((pool_step no_floats 2) ^^ 8)
      (generate_csv_init (TokenManager [''t1'', ''t2'']) [''11'', ''7''] [1, 2] [''01001''])
      example_mid"
    unfolding l8 example_init_def .
  from run_choices_sound [OF example_final_run]
  have b: "((pool_step no_floats 2) ^^ 18)
      (generate_csv_init (TokenManager [''t1'', ''t2'']) [''11'', ''7''] [1, 2] [''01001''])
      example_final"
    unfolding l18 example_init_def .
  have m: "has_token example_mid \<and> \<not> completed example_mid"
    by (simp add: has_token_def completed_def example_mid_def)
  have c: "completed example_final"
    by (simp add: completed_def example_final_def)
  have r: "rows example_final
       = [(''11'', 1, 0, ''01001''), (''11'', 2, 15, ''01001''),
          (''7'', 2, 0, ''01001''), (''7'', 1, 0, ''01001'')]"
    by (simp add: example_final_def)
  from generate_csv_rows [OF one a] generate_csv_rows [OF one b] m c a b r
  show ?thesis by (simp add: example_init_def)
qed

lemma starved_run:
  "(pool_step no_floats 1)\<^sup>*\<^sup>*
     (generate_csv_init (TokenManager []) [''11''] [1] [''01001''])
     \<lparr>to_submit = [], pending = [], running = [((''11'', 1, ''01001''), None)], finished = [],
      rows = [], token_mgr = TokenManager [], raised = None\<rparr>"
proof -
  let ?t = "(''11'', 1 :: int, ''01001'')"
  let ?tm = "TokenManager []"
  let ?s0 = "generate_csv_init ?tm [''11''] [1] [''01001'']"
  let ?s1 = "\<lparr>to_submit = [], pending = [?t], running = [], finished = [],
      rows = [], token_mgr = ?tm, raised = None\<rparr>"
  let ?s2 = "\<lparr>to_submit = [], pending = [], running = [(?t, None)], finished = [],
      rows = [], token_mgr = ?tm, raised = None\<rparr>"
  have a: "pool_step no_floats 1 ?s0 ?s1"
    using pool_step.submit [where s = ?s0 and t = ?t and ts = "[]"]
    by (simp add: generate_csv_init_def tasks_of_example)
  have b: "pool_step no_floats 1 ?s1 ?s2"
    using pool_step.start [where s = ?s1 and t = ?t and ps = "[]" and max_workers = 1]
    by simp
  from a b show ?thesis by (meson converse_rtranclp_into_rtranclp rtranclp.rtrancl_refl)
qed

lemma starved_stuck:
  "stuck fl 1
     \<lparr>to_submit = [], pending = [], running = [((''11'', 1, ''01001''), None)], finished = [],
      rows = [], token_mgr = TokenManager [], raised = None\<rparr>"
  unfolding stuck_def
proof (intro allI notI)
  fix s'
  assume "pool_step fl 1
     \<lparr>to_submit = [], pending = [], running = [((''11'', 1, ''01001''), None)], finished = [],
      rows = [], token_mgr = TokenManager [], raised = None\<rparr> s'"
  then show False
    by (cases rule: pool_step.cases)
      (auto simp: valid_task_example get_token_def TokenManager_def)
qed

text \<open>
  C1 as stated fails. With 0 workers the executor raises ValueError before any row is
  written, for a product of one element. With one worker and no token in the queue the run
  reaches a state in which the only task waits for a token: no step is possible,
  \<^verbatim>\<open>generate_csv\<close> has not returned, and the row is never written.
\<close>

theorem generate_csv_drops_rows:
  "generate_csv_start (TokenManager [''t1'']) [''11''] [1] [''01001''] 0 = Inl ValueError
   \<and> tasks_of [''11''] [1] [''01001''] = [(''11'', 1, ''01001'')]
   \<and> (pool_step no_floats 1)\<^sup>*\<^sup>*
       (generate_csv_init (TokenManager []) [''11''] [1] [''01001''])
       \<lparr>to_submit = [], pending = [], running = [((''11'', 1, ''01001''), None)], finished = [],
        rows = [], token_mgr = TokenManager [], raised = None\<rparr>
   \<and> stuck no_floats 1
       \<lparr>to_submit = [], pending = [], running = [((''11'', 1, ''01001''), None)], finished = [],
        rows = [], token_mgr = TokenManager [], raised = None\<rparr>
   \<and> \<not> completed
       \<lparr>to_submit = [], pending = [], running = [((''11'', 1, ''01001''), None)], finished = [],
        rows = [], token_mgr = TokenManager [], raised = None\<rparr>"
  using starved_run starved_stuck [of no_floats]
  by (simp add: generate_csv_start_def tasks_of_example completed_def)

end
